theory Spec2Isabelle
  imports Main "HOL-Library.Sublist" "HOL-Library.Char_ord" "HOL-Library.List_Lexorder"
begin

unbundle bit_operations_syntax

section \<open>Path helpers of the standard library (POSIX flavour)\<close>

text \<open>
  \<^verbatim>\<open>ancestors_of\<close> and \<^verbatim>\<open>FSWriter\<close> call \<^verbatim>\<open>os.path.normpath\<close>, \<^verbatim>\<open>os.path.dirname\<close>,
  \<^verbatim>\<open>str.split\<close> and \<^verbatim>\<open>str.join\<close> with \<^verbatim>\<open>os.path.sep = '/'\<close>. They are embedded here
  after \<^verbatim>\<open>posixpath.py\<close>, statement by statement.
\<close>

definition sep :: char where
  "sep = CHR ''/''"

text \<open>\<^verbatim>\<open>s.split('/')\<close>: cuts at every separator, keeps empty pieces, never returns \<^verbatim>\<open>[]\<close>.\<close>

fun split_sep :: "string \<Rightarrow> string list" where
  "split_sep [] = [[]]"
| "split_sep (c # cs) =
     (if c = sep then [] # split_sep cs
      else (case split_sep cs of [] \<Rightarrow> [[c]] | w # ws \<Rightarrow> (c # w) # ws))"

text \<open>\<^verbatim>\<open>'/'.join(parts)\<close>.\<close>

fun join_sep :: "string list \<Rightarrow> string" where
  "join_sep [] = []"
| "join_sep [x] = x"
| "join_sep (x # y # ys) = x @ sep # join_sep (y # ys)"

text \<open>
  The count \<^verbatim>\<open>initial_slashes\<close> of \<^verbatim>\<open>normpath\<close>: 0 for a relative path, 2 for a path
  that starts with exactly two slashes, 1 for every other absolute path.
\<close>

definition initial_slashes :: "string \<Rightarrow> nat" where
  "initial_slashes p =
     (if take 1 p = [sep] then
        (if take 2 p = [sep, sep] \<and> take 3 p \<noteq> [sep, sep, sep] then 2 else 1)
      else 0)"

text \<open>One round of the loop over \<^verbatim>\<open>comps\<close> in \<^verbatim>\<open>normpath\<close>; \<^verbatim>\<open>new_comps\<close> is the accumulator.\<close>

definition norm_step :: "nat \<Rightarrow> string list \<Rightarrow> string \<Rightarrow> string list" where
  "norm_step k new_comps cmp =
     (if cmp = [] \<or> cmp = ''.'' then new_comps
      else if cmp \<noteq> ''..'' \<or> (k = 0 \<and> new_comps = [])
                \<or> (new_comps \<noteq> [] \<and> last new_comps = ''..'')
           then new_comps @ [cmp]
      else if new_comps \<noteq> [] then butlast new_comps
      else new_comps)"

definition normpath :: "string \<Rightarrow> string" where
  "normpath p =
     (if p = [] then ''.''
      else
        let k = initial_slashes p;
            comps = foldl (norm_step k) [] (split_sep p);
            joined = join_sep comps;
            res = (if k \<noteq> 0 then replicate k sep @ joined else joined)
        in if res = [] then ''.'' else res)"

text \<open>
  \<^verbatim>\<open>os.path.dirname\<close>: everything up to and including the last separator, with the
  trailing separators stripped unless the head consists of separators only.
\<close>

definition rstrip_sep :: "string \<Rightarrow> string" where
  "rstrip_sep s = rev (dropWhile (\<lambda>c. c = sep) (rev s))"

definition dirname :: "string \<Rightarrow> string" where
  "dirname p =
     (let head = rev (dropWhile (\<lambda>c. c \<noteq> sep) (rev p))
      in if head \<noteq> [] \<and> head \<noteq> replicate (length head) sep then rstrip_sep head else head)"

section \<open>Path ancestry\<close>

text \<open>
  \<^verbatim>\<open>ancestors_of(path)\<close>; the generator is embedded as the list of the values it yields,
  in the order it yields them.
\<close>

definition ancestors_of :: "string \<Rightarrow> string list" where
  "ancestors_of p =
     (let normalized = normpath p in
      if normalized = [sep] then [normalized]
      else if normalized = ''.'' then [[]]
      else
        let parts = split_sep normalized in
        (case parts of [] \<Rightarrow> [] | p0 # _ \<Rightarrow> if p0 \<noteq> [] then [[]] else [])
        @ map (\<lambda>i. let j = join_sep (take (i + 1) parts) in if j = [] then [sep] else j)
              [0 ..< length parts])"

section \<open>FS nodes, the store and the cache\<close>

text \<open>
  The two values of the \<^verbatim>\<open>type\<close> column. The constants \<^verbatim>\<open>DIRECTORY_TYPE\<close> and
  \<^verbatim>\<open>FILE_TYPE\<close> are imported from the processors module; only their being distinct
  matters here.
\<close>

datatype fs_type = DIRECTORY_TYPE | FILE_TYPE

text \<open>
  A row of the \<^verbatim>\<open>fs\<close> table. The table is keyed by its unique \<^verbatim>\<open>path\<close> column, so it
  is a map from paths to the remaining columns.
\<close>

record fs_row =
  row_id :: int
  row_parent_id :: int
  row_type :: fs_type
  row_content_types :: int

text \<open>An fs object as the code handles it: the dictionary made from a fetched row.\<close>

record fs_entry =
  entry_id :: int
  entry_parent_id :: int
  entry_path :: string
  entry_type :: fs_type
  entry_content_types :: int

definition entry_of :: "string \<Rightarrow> fs_row \<Rightarrow> fs_entry" where
  "entry_of p r =
     \<lparr>entry_id = row_id r, entry_parent_id = row_parent_id r, entry_path = p,
      entry_type = row_type r, entry_content_types = row_content_types r\<rparr>"

text \<open>
  What \<^verbatim>\<open>write\<close> holds in \<^verbatim>\<open>last\<close>: an fs object, or \<^verbatim>\<open>DEFAULT_ROOT = dict(id=0)\<close>,
  which has an id and nothing else.
\<close>

datatype node = DEFAULT_ROOT | Entry fs_entry

fun node_id :: "node \<Rightarrow> int" where
  "node_id DEFAULT_ROOT = 0"
| "node_id (Entry e) = entry_id e"

text \<open>A row of the \<^verbatim>\<open>meta\<close> table; \<^verbatim>\<open>(fs_id, language, key)\<close> is its natural key.\<close>

record meta_row =
  meta_fs_id :: int
  meta_language :: string
  meta_key :: string
  meta_value :: string

text \<open>The data \<^verbatim>\<open>save\<close> and \<^verbatim>\<open>FSWriter\<close> take: a path, a type, a bitmask and metadata by language.\<close>

record fs_data =
  data_path :: string
  data_type :: fs_type
  data_content_types :: int
  data_metadata :: "(string \<times> (string \<times> string) list) list"

text \<open>
  A row of the joined queries of \<^verbatim>\<open>get\<close>, \<^verbatim>\<open>for_parent\<close> and \<^verbatim>\<open>search\<close>: the columns of
  an fs row and the columns of one meta row, which are null when the outer join finds
  no meta row.
\<close>

record join_row =
  jr_path :: string
  jr_id :: int
  jr_parent_id :: int
  jr_type :: fs_type
  jr_content_types :: int
  jr_language :: "string option"
  jr_key :: "string option"
  jr_value :: "string option"

text \<open>
  The dictionary \<^verbatim>\<open>_reconstruct_meta\<close> wraps: the five fs fields, and the sections by
  language. \<^verbatim>\<open>data.update(path=..., ...)\<close> overwrites whatever \<^verbatim>\<open>data\<close> held under the
  five field names, so a section whose language is one of them is not in the view.
\<close>

record meta_view =
  mv_path :: string
  mv_id :: int
  mv_parent_id :: int
  mv_type :: fs_type
  mv_content_types :: int
  mv_sections :: "string option \<rightharpoonup> (string \<rightharpoonup> string option)"

text \<open>A \<^verbatim>\<open>MetaWrapper\<close>: around a reconstructed view, or around what the processors gathered.\<close>

datatype wrapper = Stored meta_view | Analyzed fs_data

text \<open>Work handed to the task executor by \<^verbatim>\<open>analyze\<close> and \<^verbatim>\<open>scan\<close>.\<close>

datatype task =
  Analyze_task "string list" bool
| Scan_task string bool "nat option" nat nat

text \<open>
  The state the code works on: both tables, the id sequence of the \<^verbatim>\<open>fs\<close> table, the
  cache (a map from cache keys to fs objects), the number of statements passed to
  \<^verbatim>\<open>execute\<close> or \<^verbatim>\<open>executemany\<close> so far, the queue of the task executor, and the
  arguments the caller's callback has been called with.
\<close>

record state =
  fs :: "string \<rightharpoonup> fs_row"
  next_id :: int
  meta :: "meta_row list"
  cache :: "string \<rightharpoonup> fs_entry"
  db_writes :: nat
  tasks :: "task list"
  callbacks :: "(string \<rightharpoonup> wrapper) list"

definition empty_state :: state where
  "empty_state = \<lparr>fs = Map.empty, next_id = 1, meta = [], cache = Map.empty,
                  db_writes = 0, tasks = [], callbacks = []\<rparr>"

text \<open>\<^verbatim>\<open>dict(None)\<close>, which is what \<^verbatim>\<open>_fetch\<close> evaluates when no row matches.\<close>

datatype error = TypeError

section \<open>The node materializer \<^verbatim>\<open>FSWriter\<close>\<close>

text \<open>
  Methods whose Python name starts with an underscore lose it here, and \<^verbatim>\<open>_update\<close>
  is \<open>update_entry\<close> to keep it apart from the public \<^verbatim>\<open>update\<close>; \<^verbatim>\<open>write\<close> is
  \<open>write_fs\<close>, since the plain name is reserved.
\<close>

record writer =
  w_path :: string
  w_parent_path :: string
  w_type :: fs_type
  w_content_types :: int

definition FSWriter :: "fs_data \<Rightarrow> writer" where
  "FSWriter data =
     \<lparr>w_path = data_path data, w_parent_path = dirname (data_path data),
      w_type = data_type data, w_content_types = data_content_types data\<rparr>"

definition fs_key :: "string \<Rightarrow> string" where
  "fs_key p = ''fs_'' @ p"

text \<open>The first loop of \<^verbatim>\<open>_get_chain\<close>: it stops at the first path the cache lacks.\<close>

fun cache_walk :: "(string \<rightharpoonup> fs_entry) \<Rightarrow> string list \<Rightarrow> fs_entry list \<times> string list" where
  "cache_walk c [] = ([], [])"
| "cache_walk c (p # ps) =
     (case c (fs_key p) of
        None \<Rightarrow> ([], p # ps)
      | Some e \<Rightarrow> (let (ancestors, missing) = cache_walk c ps in (e # ancestors, missing)))"

text \<open>
  \<^verbatim>\<open>SELECT * FROM fs WHERE path IN (...) ORDER BY length(path)\<close>: every matching row
  once, shortest path first (rows of equal length in the order of the request).
\<close>

definition select_in :: "(string \<rightharpoonup> fs_row) \<Rightarrow> string list \<Rightarrow> fs_entry list" where
  "select_in tbl paths =
     List.map_filter (\<lambda>p. map_option (entry_of p) (tbl p)) (sort_key length (remdups paths))"

text \<open>One round of the second loop of \<^verbatim>\<open>_get_chain\<close>.\<close>

definition chain_step :: "fs_entry list \<times> string list \<times> state \<Rightarrow> fs_entry
    \<Rightarrow> fs_entry list \<times> string list \<times> state" where
  "chain_step acc e =
     (case acc of (ancestors, missing, s) \<Rightarrow>
        (ancestors @ [e], remove1 (entry_path e) missing,
         s\<lparr>cache := (cache s)(fs_key (entry_path e) \<mapsto> e)\<rparr>))"

definition get_chain :: "writer \<Rightarrow> state \<Rightarrow> fs_entry list \<times> string list \<times> state" where
  "get_chain w s =
     (let path_chain = ancestors_of (w_path w);
          (ancestors, missing) = cache_walk (cache s) path_chain
      in if missing = [] then (ancestors, missing, s)
         else foldl chain_step (ancestors, missing, s) (select_in (fs s) missing))"

definition fetch :: "string \<Rightarrow> state \<Rightarrow> error + fs_entry" where
  "fetch p s = (case fs s p of None \<Rightarrow> Inl TypeError | Some r \<Rightarrow> Inr (entry_of p r))"

text \<open>
  The upsert \<^verbatim>\<open>Replace(fs, constraints=['path'])\<close>: a new row takes the next id of the
  sequence, a row that exists keeps its id and takes the other columns.
\<close>

definition db_replace :: "string \<Rightarrow> int \<Rightarrow> fs_type \<Rightarrow> int \<Rightarrow> state \<Rightarrow> state" where
  "db_replace p parent_id fs_type content_types s =
     (case fs s p of
        None \<Rightarrow>
          s\<lparr>fs := (fs s)(p \<mapsto> \<lparr>row_id = next_id s, row_parent_id = parent_id,
                                 row_type = fs_type, row_content_types = content_types\<rparr>),
            next_id := next_id s + 1,
            db_writes := Suc (db_writes s)\<rparr>
      | Some r \<Rightarrow>
          s\<lparr>fs := (fs s)(p \<mapsto> r\<lparr>row_parent_id := parent_id, row_type := fs_type,
                                   row_content_types := content_types\<rparr>),
            db_writes := Suc (db_writes s)\<rparr>)"

definition create :: "string \<Rightarrow> int \<Rightarrow> fs_type \<Rightarrow> int \<Rightarrow> state \<Rightarrow> error + fs_entry \<times> state" where
  "create p parent_id fs_type content_types s =
     (let s1 = db_replace p parent_id fs_type content_types s in
      case fetch p s1 of
        Inl err \<Rightarrow> Inl err
      | Inr entry \<Rightarrow> Inr (entry, s1\<lparr>cache := (cache s1)(fs_key p \<mapsto> entry)\<rparr>))"

text \<open>\<^verbatim>\<open>UPDATE fs SET content_types = content_types | %s WHERE path = %s\<close>.\<close>

definition db_update :: "string \<Rightarrow> int \<Rightarrow> state \<Rightarrow> state" where
  "db_update p content_types s =
     s\<lparr>fs := (case fs s p of
                None \<Rightarrow> fs s
              | Some r \<Rightarrow> (fs s)(p \<mapsto> r\<lparr>row_content_types := row_content_types r OR content_types\<rparr>)),
       db_writes := Suc (db_writes s)\<rparr>"

definition update_entry :: "string \<Rightarrow> int \<Rightarrow> state \<Rightarrow> error + fs_entry \<times> state" where
  "update_entry p content_types s =
     (case cache s (fs_key p) of
        Some entry \<Rightarrow>
          if entry_content_types entry AND content_types = content_types then Inr (entry, s)
          else
            let s1 = db_update p content_types s;
                entry' = entry\<lparr>entry_content_types := entry_content_types entry OR content_types\<rparr>
            in Inr (entry', s1\<lparr>cache := (cache s1)(fs_key p \<mapsto> entry')\<rparr>)
      | None \<Rightarrow>
          let s1 = db_update p content_types s in
          (case fetch p s1 of
             Inl err \<Rightarrow> Inl err
           | Inr entry \<Rightarrow> Inr (entry, s1\<lparr>cache := (cache s1)(fs_key p \<mapsto> entry)\<rparr>)))"

text \<open>
  The loop of \<^verbatim>\<open>write\<close> over \<^verbatim>\<open>missing_paths\<close>; \<open>dct\<close> is \<^verbatim>\<open>DEFAULT_CONTENT_TYPE\<close>, the
  bitmask of the generic content type, which the absent content types module computes.
\<close>

fun create_missing :: "int \<Rightarrow> writer \<Rightarrow> string list \<Rightarrow> node \<Rightarrow> state \<Rightarrow> error + node \<times> state" where
  "create_missing dct w [] last_node s = Inr (last_node, s)"
| "create_missing dct w (missing # rest) last_node s =
     (let content_types =
            (if missing = w_path w \<or> (missing = w_parent_path w \<and> w_type w = FILE_TYPE)
             then dct OR w_content_types w else dct)
      in case create missing (node_id last_node) (w_type w) content_types s of
           Inl err \<Rightarrow> Inl err
         | Inr (entry, s') \<Rightarrow> create_missing dct w rest (Entry entry) s')"

definition write_fs :: "int \<Rightarrow> writer \<Rightarrow> state \<Rightarrow> error + node \<times> state" where
  "write_fs dct w s =
     (case get_chain w s of (found, missing_paths, s1) \<Rightarrow>
      let last0 = (if found \<noteq> [] then Entry (last found) else DEFAULT_ROOT) in
      case create_missing dct w missing_paths last0 s1 of
        Inl err \<Rightarrow> Inl err
      | Inr (last1, s2) \<Rightarrow>
          (case (if w_parent_path w \<notin> set missing_paths \<and> w_type w = FILE_TYPE
                 then map_sum id snd (update_entry (w_parent_path w) (w_content_types w) s2)
                 else Inr s2) of
             Inl err \<Rightarrow> Inl err
           | Inr s3 \<Rightarrow>
               if w_path w \<notin> set missing_paths
               then map_sum id (\<lambda>(entry, s4). (Entry entry, s4))
                      (update_entry (w_path w) (w_content_types w) s3)
               else Inr (last1, s3)))"

definition update :: "writer \<Rightarrow> state \<Rightarrow> error + fs_entry \<times> state" where
  "update w s = update_entry (w_path w) (w_content_types w) s"

section \<open>The facets engine \<^verbatim>\<open>Archive\<close>\<close>

text \<open>
  The collaborators of \<^verbatim>\<open>Archive\<close> that are not part of its code are parameters of the
  model: whether the processor of a content type can process a path, the bitmask of a
  content type, the data the processors gather for a path (by the \<^verbatim>\<open>partial\<close> flag), the
  valid metadata keys \<^verbatim>\<open>ContentTypes.keys(None)\<close>, the bitmask of the generic content
  type, and the file-system lister (success flag, relative paths of the directories,
  relative paths of the files).
\<close>

record ext =
  ext_can_process :: "string \<Rightarrow> string \<Rightarrow> bool"
  ext_to_bitmask :: "string \<Rightarrow> int"
  ext_process :: "bool \<Rightarrow> string \<Rightarrow> fs_data"
  ext_keys :: "string list"
  ext_generic :: int
  ext_list_dir :: "string \<Rightarrow> bool \<times> string list \<times> string list"

text \<open>\<^verbatim>\<open>itertools.groupby\<close>: maximal runs of consecutive elements with the same key.\<close>

function groupby :: "('a \<Rightarrow> 'k) \<Rightarrow> 'a list \<Rightarrow> ('k \<times> 'a list) list" where
  "groupby f [] = []"
| "groupby f (x # xs) =
     (f x, x # takeWhile (\<lambda>y. f y = f x) xs) # groupby f (dropWhile (\<lambda>y. f y = f x) xs)"
  by pat_completeness auto
termination
  by (relation "measure (\<lambda>(f, xs). length xs)") (auto simp: length_dropWhile_le less_Suc_eq_le)

text \<open>The body of the inner loop of \<^verbatim>\<open>_reconstruct_meta\<close>; a key is used when it is truthy.\<close>

definition row_step :: "(string option \<rightharpoonup> (string \<rightharpoonup> string option)) \<Rightarrow> join_row
    \<Rightarrow> (string option \<rightharpoonup> (string \<rightharpoonup> string option))" where
  "row_step data row =
     (case jr_key row of
        None \<Rightarrow> data
      | Some key \<Rightarrow>
          if key = [] then data
          else
            let language = jr_language row;
                section = (case data language of None \<Rightarrow> Map.empty | Some sec \<Rightarrow> sec)
            in data(language \<mapsto> section(key \<mapsto> jr_value row)))"

definition reserved_keys :: "string list" where
  "reserved_keys = [''path'', ''id'', ''parent_id'', ''type'', ''content_types'']"

text \<open>
  One round of the outer loop: the sections of the group, then the fs fields of the row
  the inner loop ended on, which is the last row of the group.
\<close>

definition group_view :: "string \<times> join_row list \<Rightarrow> meta_view" where
  "group_view g =
     (case g of (path, row_iter) \<Rightarrow>
        let data = foldl row_step Map.empty row_iter;
            row = last row_iter
        in \<lparr>mv_path = path, mv_id = jr_id row, mv_parent_id = jr_parent_id row,
            mv_type = jr_type row, mv_content_types = jr_content_types row,
            mv_sections = (\<lambda>l. if l \<in> Some ` set reserved_keys then None else data l)\<rparr>)"

definition reconstruct_meta :: "join_row list \<Rightarrow> meta_view list" where
  "reconstruct_meta rows = map group_view (groupby jr_path rows)"

text \<open>
  Modelled from the spec: the decorator \<^verbatim>\<open>batched\<close> of \<^verbatim>\<open>core.utils\<close>, which is not among
  the sources. The spec says that inputs are internally chunked into bounded batches;
  the results of the batches are merged with \<^verbatim>\<open>dict.update\<close> (\<^verbatim>\<open>batched.updater\<close>).
\<close>

function batches :: "nat \<Rightarrow> 'a list \<Rightarrow> 'a list list" where
  "batches n xs = (if xs = [] \<or> n = 0 then [] else take n xs # batches n (drop n xs))"
  by pat_completeness auto
termination
  by (relation "measure (\<lambda>(n, xs). length xs)") auto

text \<open>\<^verbatim>\<open>dict(pairs)\<close>: a later pair wins over an earlier one with the same key.\<close>

definition dict_of :: "('k \<times> 'v) list \<Rightarrow> ('k \<rightharpoonup> 'v)" where
  "dict_of pairs = map_of (rev pairs)"

text \<open>
  \<^verbatim>\<open>analyze\<close> without a callback: \<^verbatim>\<open>_analyze\<close> wraps what the processors gather, one
  batch of ten paths at a time. With a callback each batch becomes a task and the call
  returns an empty dictionary.
\<close>

definition analyze_path :: "ext \<Rightarrow> string \<Rightarrow> bool \<Rightarrow> wrapper" where
  "analyze_path x path partial = Analyzed (ext_process x partial path)"

definition analyze :: "ext \<Rightarrow> string list \<Rightarrow> bool \<Rightarrow> (string \<rightharpoonup> wrapper)" where
  "analyze x paths partial =
     foldl (\<lambda>acc batch. acc ++ dict_of (map (\<lambda>path. (path, analyze_path x path partial)) batch))
       Map.empty (batches 10 paths)"

definition analyze_callback :: "string list \<Rightarrow> bool \<Rightarrow> state \<Rightarrow> state" where
  "analyze_callback paths partial s =
     s\<lparr>tasks := tasks s @ map (\<lambda>batch. Analyze_task batch partial) (batches 10 paths)\<rparr>"

definition keep_supported :: "ext \<Rightarrow> string list \<Rightarrow> string \<Rightarrow> string list" where
  "keep_supported x paths content_type = filter (ext_can_process x content_type) paths"

definition strip :: "ext \<Rightarrow> (string \<times> string) list \<Rightarrow> (string \<times> string) list" where
  "strip x metadata = filter (\<lambda>(k, v). k \<in> set (ext_keys x)) metadata"

text \<open>The upsert into \<^verbatim>\<open>meta\<close>, keyed by \<^verbatim>\<open>(fs_id, language, key)\<close>.\<close>

fun meta_replace :: "meta_row \<Rightarrow> meta_row list \<Rightarrow> meta_row list" where
  "meta_replace r [] = [r]"
| "meta_replace r (m # ms) =
     (if meta_fs_id m = meta_fs_id r \<and> meta_language m = meta_language r \<and> meta_key m = meta_key r
      then r # ms else m # meta_replace r ms)"

fun save_metadata :: "ext \<Rightarrow> int \<Rightarrow> (string \<times> (string \<times> string) list) list \<Rightarrow> state
    \<Rightarrow> (string \<times> (string \<times> string) list) list \<times> state" where
  "save_metadata x fs_id [] s = ([], s)"
| "save_metadata x fs_id ((language, section) # rest) s =
     (let cleaned = strip x section;
          seq = map (\<lambda>(key, v). \<lparr>meta_fs_id = fs_id, meta_language = language,
                                   meta_key = key, meta_value = v\<rparr>) cleaned;
          s1 = s\<lparr>meta := foldl (\<lambda>tbl r. meta_replace r tbl) (meta s) seq,
                  db_writes := Suc (db_writes s)\<rparr>;
          (cleaned_rest, s2) = save_metadata x fs_id rest s1
      in ((language, cleaned) # cleaned_rest, s2))"

definition save :: "ext \<Rightarrow> fs_data \<Rightarrow> state
    \<Rightarrow> error + (node \<times> (string \<times> (string \<times> string) list) list) \<times> state" where
  "save x data s =
     (case write_fs (ext_generic x) (FSWriter data) s of
        Inl err \<Rightarrow> Inl err
      | Inr (saved, s1) \<Rightarrow>
          (case save_metadata x (node_id saved) (data_metadata data) s1 of
             (cleaned, s2) \<Rightarrow> Inr ((saved, cleaned), s2)))"

fun save_many :: "ext \<Rightarrow> fs_data list \<Rightarrow> state \<Rightarrow> error + state" where
  "save_many x [] s = Inr s"
| "save_many x (data # rest) s =
     (case save x data s of Inl err \<Rightarrow> Inl err | Inr (_, s1) \<Rightarrow> save_many x rest s1)"

text \<open>
  The joined query of \<^verbatim>\<open>get\<close>: the fs rows whose path is among \<^verbatim>\<open>paths\<close> (and whose
  content types contain the bitmask, when one is given), in the order of their paths,
  each with its meta rows, or with nulls when it has none.
\<close>

definition join_rows :: "string \<Rightarrow> fs_row \<Rightarrow> meta_row list \<Rightarrow> join_row list" where
  "join_rows p r ms =
     (let base = \<lparr>jr_path = p, jr_id = row_id r, jr_parent_id = row_parent_id r,
                  jr_type = row_type r, jr_content_types = row_content_types r,
                  jr_language = None, jr_key = None, jr_value = None\<rparr>
      in if ms = [] then [base]
         else map (\<lambda>m. base\<lparr>jr_language := Some (meta_language m), jr_key := Some (meta_key m),
                             jr_value := Some (meta_value m)\<rparr>) ms)"

definition select_meta :: "state \<Rightarrow> string list \<Rightarrow> int option \<Rightarrow> join_row list" where
  "select_meta s paths bitmask =
     concat (map (\<lambda>p. case fs s p of
                         None \<Rightarrow> []
                       | Some r \<Rightarrow>
                           if (case bitmask of None \<Rightarrow> True
                               | Some b \<Rightarrow> row_content_types r AND b = b)
                           then join_rows p r (filter (\<lambda>m. meta_fs_id m = row_id r) (meta s))
                           else [])
                 (sort (remdups paths)))"

text \<open>
  The body of \<^verbatim>\<open>get\<close>, which runs on one batch of at most 999 paths. The paths that
  are not found are analyzed in the order of the request (Python iterates a set here,
  in no specified order).
\<close>

definition get_batch :: "ext \<Rightarrow> string list \<Rightarrow> string option \<Rightarrow> bool \<Rightarrow> bool \<Rightarrow> state
    \<Rightarrow> error + (string \<rightharpoonup> wrapper) \<times> state" where
  "get_batch x paths0 content_type partial ignore_missing s =
     (let paths = (case content_type of None \<Rightarrow> paths0
                   | Some c \<Rightarrow> keep_supported x paths0 c)
      in if content_type \<noteq> None \<and> paths = [] then Inr (Map.empty, s)
         else
           let rows = select_meta s paths (map_option (ext_to_bitmask x) content_type);
               data = dict_of (map (\<lambda>m. (mv_path m, Stored m)) (reconstruct_meta rows))
           in if ignore_missing then Inr (data, s)
              else
                let missing = filter (\<lambda>p. data p = None) (remdups paths) in
                if missing \<noteq> [] then
                  if partial then
                    let s1 = analyze_callback missing False s;
                        partials = analyze x missing True
                    in Inr (data ++ partials, s1)
                  else
                    let metas = analyze x missing False in
                    (case save_many x (map (ext_process x False) missing) s of
                       Inl err \<Rightarrow> Inl err
                     | Inr s1 \<Rightarrow> Inr (data ++ metas, s1))
                else Inr (data, s))"

text \<open>\<^verbatim>\<open>get\<close> itself: the batches in turn, their results merged with \<^verbatim>\<open>dict.update\<close>.\<close>

fun get_batches :: "ext \<Rightarrow> string list list \<Rightarrow> string option \<Rightarrow> bool \<Rightarrow> bool
    \<Rightarrow> (string \<rightharpoonup> wrapper) \<Rightarrow> state \<Rightarrow> error + (string \<rightharpoonup> wrapper) \<times> state" where
  "get_batches x [] content_type partial ignore_missing acc s = Inr (acc, s)"
| "get_batches x (b # bs) content_type partial ignore_missing acc s =
     (case get_batch x b content_type partial ignore_missing s of
        Inl err \<Rightarrow> Inl err
      | Inr (d, s1) \<Rightarrow> get_batches x bs content_type partial ignore_missing (acc ++ d) s1)"

definition get :: "ext \<Rightarrow> string list \<Rightarrow> string option \<Rightarrow> bool \<Rightarrow> bool \<Rightarrow> state
    \<Rightarrow> error + (string \<rightharpoonup> wrapper) \<times> state" where
  "get x paths content_type partial ignore_missing s =
     get_batches x (batches 999 paths) content_type partial ignore_missing Map.empty s"

text \<open>
  \<^verbatim>\<open>remove\<close> on one batch: the meta rows of the paths, then their fs rows (the cleanup
  hooks of the processors act outside this state). Nothing here touches the cache.
\<close>

definition remove_batch :: "string list \<Rightarrow> state \<Rightarrow> state" where
  "remove_batch paths s =
     s\<lparr>meta := filter (\<lambda>m. \<not> (\<exists>p \<in> set paths. map_option row_id (fs s p) = Some (meta_fs_id m)))
                 (meta s),
       fs := (\<lambda>p. if p \<in> set paths then None else fs s p),
       db_writes := Suc (Suc (db_writes s))\<rparr>"

definition remove_paths :: "string list \<Rightarrow> state \<Rightarrow> state" where
  "remove_paths paths s = foldl (\<lambda>s1 batch. remove_batch batch s1) s (batches 999 paths)"

text \<open>
  \<^verbatim>\<open>_scan\<close>. The generator is embedded as the list of the batches it yields, with the
  state it leaves. \<^verbatim>\<open>raise StopIteration()\<close> in the body of a generator ends the
  generator (the semantics of the Python 2 this code is written for), so both places
  that raise it return what was yielded so far. The recursion follows the directory
  tree the lister reports, which need not be finite: the first argument bounds the
  depth of the recursion, and \<open>None\<close> is the scan that did not end within it.
  \<open>scan_dirs\<close> is the loop over \<^verbatim>\<open>dirs\<close> in blocking mode; \<open>callback\<close> tells whether a
  callback was passed.
\<close>

definition ROOT_PATH :: string where
  "ROOT_PATH = []"

function scan_gen :: "nat \<Rightarrow> ext \<Rightarrow> string option \<Rightarrow> bool \<Rightarrow> bool \<Rightarrow> nat option \<Rightarrow> nat \<Rightarrow> nat
      \<Rightarrow> state \<Rightarrow> ((string \<rightharpoonup> wrapper) list \<times> state) option"
  and scan_dirs :: "nat \<Rightarrow> ext \<Rightarrow> string list \<Rightarrow> bool \<Rightarrow> nat option \<Rightarrow> nat \<Rightarrow> nat
      \<Rightarrow> (string \<rightharpoonup> wrapper) list \<times> state \<Rightarrow> ((string \<rightharpoonup> wrapper) list \<times> state) option"
where
  "scan_gen 0 x path partial callback maxdepth depth delay s = None"
| "scan_gen (Suc n) x path partial callback maxdepth depth delay s =
     (let path1 = (case path of None \<Rightarrow> ROOT_PATH | Some p \<Rightarrow> if p = [] then ROOT_PATH else p)
      in case ext_list_dir x (if path1 = [] then ''.'' else path1) of
           (success, dirs, files) \<Rightarrow>
             if \<not> success then Some ([], s)
             else
               let metadata = analyze x files partial;
                   yielded = (if callback then [] else [metadata]);
                   s1 = (if callback then s\<lparr>callbacks := callbacks s @ [metadata]\<rparr> else s)
               in if maxdepth = Some depth then Some (yielded, s1)
                  else if callback
                  then Some (yielded,
                             s1\<lparr>tasks := tasks s1 @
                                  map (\<lambda>d. Scan_task d partial maxdepth (depth + 1) delay) dirs\<rparr>)
                  else scan_dirs n x dirs partial maxdepth (depth + 1) delay (yielded, s1))"
| "scan_dirs n x [] partial maxdepth depth delay acc = Some acc"
| "scan_dirs n x (d # ds) partial maxdepth depth delay acc =
     (case scan_gen n x (Some d) partial False maxdepth depth delay (snd acc) of
        None \<Rightarrow> None
      | Some (ys, s1) \<Rightarrow> scan_dirs n x ds partial maxdepth depth delay (fst acc @ ys, s1))"
  by pat_completeness auto
termination
  by (relation "inv_image (less_than <*lex*> less_than) (\<lambda>a. case a of
          Inl (n, x, path, partial, callback, maxdepth, depth, delay, s) \<Rightarrow> (2 * n, 0)
        | Inr (n, x, ds, partial, maxdepth, depth, delay, acc) \<Rightarrow> (2 * n + 1, length ds))")
     auto

text \<open>
  \<^verbatim>\<open>scan\<close>: with a callback the generator is run to its end and its (empty) list of
  batches returned, otherwise the generator itself is returned.
\<close>

definition scan :: "nat \<Rightarrow> ext \<Rightarrow> string option \<Rightarrow> bool \<Rightarrow> bool \<Rightarrow> nat option \<Rightarrow> nat \<Rightarrow> nat
    \<Rightarrow> state \<Rightarrow> ((string \<rightharpoonup> wrapper) list \<times> state) option" where
  "scan n x path partial callback maxdepth depth delay s =
     scan_gen n x path partial callback maxdepth depth delay s"

section \<open>States and inputs of the worked examples\<close>

definition dir_a_state :: state where
  "dir_a_state =
     empty_state\<lparr>fs := [''a'' \<mapsto> \<lparr>row_id = 1, row_parent_id = 0, row_type = DIRECTORY_TYPE,
                                   row_content_types = 1\<rparr>],
                 next_id := 2\<rparr>"

definition dir_a_writer :: writer where
  "dir_a_writer =
     FSWriter \<lparr>data_path = ''a'', data_type = DIRECTORY_TYPE, data_content_types = 2,
               data_metadata = []\<rparr>"

section \<open>Auxiliary notions of the proofs\<close>

text \<open>Path components as \<^verbatim>\<open>normpath\<close> keeps them: not empty and free of separators.\<close>

definition comps_ok :: "string list \<Rightarrow> bool" where
  "comps_ok cs \<longleftrightarrow> (\<forall>c \<in> set cs. c \<noteq> [] \<and> sep \<notin> set c)"

text \<open>The length of the joined components, counting a separator after each of them.\<close>

definition wsum :: "string list \<Rightarrow> nat" where
  "wsum xs = sum_list (map (\<lambda>c. Suc (length c)) xs)"

text \<open>
  The view the specification describes for a group of rows: the fs fields of the last
  row of the group, and the sections built from the rows whose key is not null only.
\<close>

definition view_of_group :: "string \<times> join_row list \<Rightarrow> meta_view" where
  "view_of_group g =
     (case g of (p, rs) \<Rightarrow>
        \<lparr>mv_path = p, mv_id = jr_id (last rs), mv_parent_id = jr_parent_id (last rs),
         mv_type = jr_type (last rs), mv_content_types = jr_content_types (last rs),
         mv_sections = (\<lambda>l. if l \<in> Some ` set reserved_keys then None
                             else foldl row_step Map.empty (filter (\<lambda>r. jr_key r \<noteq> None) rs) l)\<rparr>)"

text \<open>Rows as the joined query returns them: two meta rows of a file, a directory without any.\<close>

definition example_rows :: "join_row list" where
  "example_rows =
     [\<lparr>jr_path = ''a'', jr_id = 2, jr_parent_id = 1, jr_type = FILE_TYPE, jr_content_types = 3,
       jr_language = Some ''en'', jr_key = Some ''title'', jr_value = Some ''A''\<rparr>,
      \<lparr>jr_path = ''a'', jr_id = 2, jr_parent_id = 1, jr_type = FILE_TYPE, jr_content_types = 3,
       jr_language = Some ''en'', jr_key = Some ''author'', jr_value = Some ''B''\<rparr>,
      \<lparr>jr_path = ''b'', jr_id = 5, jr_parent_id = 1, jr_type = DIRECTORY_TYPE, jr_content_types = 1,
       jr_language = None, jr_key = None, jr_value = None\<rparr>]"

text \<open>The path \<^verbatim>\<open>_scan\<close> hands to the lister: \<^verbatim>\<open>(path or ROOT_PATH) or '.'\<close>.\<close>

definition scan_target :: "string option \<Rightarrow> string" where
  "scan_target path = (case path of None \<Rightarrow> ''.'' | Some p \<Rightarrow> if p = [] then ''.'' else p)"

text \<open>
  Collaborators for the examples: the content directory holds \<^verbatim>\<open>f.txt\<close> and the
  directories \<^verbatim>\<open>a\<close> and \<^verbatim>\<open>b\<close>; listing \<^verbatim>\<open>a\<close> fails, and \<^verbatim>\<open>b\<close> holds \<^verbatim>\<open>b/g.txt\<close>.
\<close>

definition example_ext :: ext where
  "example_ext =
     \<lparr>ext_can_process = (\<lambda>c p. True),
      ext_to_bitmask = (\<lambda>c. 2),
      ext_process = (\<lambda>partial p. \<lparr>data_path = p, data_type = FILE_TYPE, data_content_types = 2,
                                   data_metadata = []\<rparr>),
      ext_keys = [''title''],
      ext_generic = 1,
      ext_list_dir = (\<lambda>p. if p = ''.'' then (True, [''a'', ''b''], [''f.txt''])
                         else if p = ''b'' then (True, [], [''b/g.txt''])
                         else (False, [], []))\<rparr>"

text \<open>
  A directory \<^verbatim>\<open>a/b\<close> to save, and the state reached from the empty one by saving it and
  then removing its parent \<^verbatim>\<open>a\<close> with \<^verbatim>\<open>Archive.remove\<close>: the rows of \<^verbatim>\<open>a\<close> are gone, the
  cache still holds the whole chain.
\<close>

definition dir_ab_data :: fs_data where
  "dir_ab_data = \<lparr>data_path = ''a/b'', data_type = DIRECTORY_TYPE, data_content_types = 2,
                   data_metadata = []\<rparr>"

definition stale_state :: state where
  "stale_state =
     remove_paths [''a''] (snd (projr (write_fs 1 (FSWriter dir_ab_data) empty_state)))"

text \<open>The entry the cache holds under the key of a path, if any, carries that path.\<close>

definition cache_names :: "string \<Rightarrow> state \<Rightarrow> bool" where
  "cache_names q s \<longleftrightarrow> (case cache s (fs_key q) of None \<Rightarrow> True | Some e \<Rightarrow> entry_path e = q)"

text \<open>The state in which \<^verbatim>\<open>a/b\<close> has been saved once, starting from nothing.\<close>

definition after_first_write :: state where
  "after_first_write = snd (projr (write_fs 1 (FSWriter dir_ab_data) empty_state))"

text \<open>The row of a path exists and its content types contain the bits \<open>b\<close>.\<close>

definition has_bits :: "string \<Rightarrow> int \<Rightarrow> state \<Rightarrow> bool" where
  "has_bits q b s \<longleftrightarrow>
     (case fs s q of None \<Rightarrow> False | Some r \<Rightarrow> row_content_types r AND b = b)"

text \<open>
  The entry the cache holds under the key of a path, if any, claims no bit that the row
  of the path in the store lacks.
\<close>

definition cache_covered :: "string \<Rightarrow> state \<Rightarrow> bool" where
  "cache_covered q s \<longleftrightarrow>
     (case cache s (fs_key q) of
        None \<Rightarrow> True
      | Some e \<Rightarrow> has_bits q (entry_content_types e) s)"

text \<open>
  A file \<^verbatim>\<open>a/f.txt\<close> to save, and the state reached from the empty one by saving it and
  then removing its parent \<^verbatim>\<open>a\<close>.
\<close>

definition file_af_data :: fs_data where
  "file_af_data = \<lparr>data_path = ''a/f.txt'', data_type = FILE_TYPE, data_content_types = 2,
                    data_metadata = []\<rparr>"

definition stale_file_state :: state where
  "stale_file_state =
     remove_paths [''a''] (snd (projr (write_fs 1 (FSWriter file_af_data) empty_state)))"

text \<open>
  The file \<^verbatim>\<open>/a/b/c.txt\<close> of the worked example, with the bitmask \<open>t\<close> of its content
  type.
\<close>

definition c_txt_data :: "int \<Rightarrow> fs_data" where
  "c_txt_data t = \<lparr>data_path = ''/a/b/c.txt'', data_type = FILE_TYPE, data_content_types = t,
                    data_metadata = []\<rparr>"

text \<open>
  The cached entry of a path, if there is one, is the entry made from the row of the
  path in the store.
\<close>

definition cache_exact :: "string \<Rightarrow> state \<Rightarrow> bool" where
  "cache_exact q s \<longleftrightarrow>
     (case cache s (fs_key q) of
        None \<Rightarrow> True
      | Some e \<Rightarrow> (case fs s q of None \<Rightarrow> False | Some r \<Rightarrow> e = entry_of q r))"

text \<open>The directory \<^verbatim>\<open>a/b\<close> written with a trailing slash, which is not its normal form.\<close>

definition dir_ab_slash_data :: fs_data where
  "dir_ab_slash_data = \<lparr>data_path = ''a/b/'', data_type = DIRECTORY_TYPE, data_content_types = 2,
                         data_metadata = []\<rparr>"

section \<open>Bitmasks\<close>

lemma or_covers: "((x::int) OR c) AND c = c"
  by (rule bit_eqI) (auto simp: bit_and_iff bit_or_iff)

section \<open>The update of content types\<close>

lemma fetch_after_update_covers:
  "fetch p (db_update p c s) = Inr e \<Longrightarrow> entry_content_types e AND c = c"
  by (auto simp: fetch_def db_update_def entry_of_def or_covers split: option.splits)

lemma update_entry_cached:
  "update_entry p c s = Inr (e, s') \<Longrightarrow>
     cache s' (fs_key p) = Some e \<and> entry_content_types e AND c = c"
  by (auto simp: update_entry_def Let_def or_covers fetch_after_update_covers
           split: option.splits if_splits sum.splits)

lemma update_entry_skip:
  "cache s (fs_key p) = Some e \<Longrightarrow> entry_content_types e AND c = c \<Longrightarrow>
     update_entry p c s = Inr (e, s)"
  by (simp add: update_entry_def)

text \<open>
  C5. When \<^verbatim>\<open>update()\<close> has returned an entry, a second \<^verbatim>\<open>update()\<close> with the same path
  and bitmask returns the same entry and leaves the whole state as the first call left
  it: the store holds the same value and no further statement has been executed.
  Whenever the cached entry of the path already contains the requested bits, the call
  returns that entry and changes nothing.
\<close>

theorem update_idempotent:
  "(update w s = Inr (e, s') \<longrightarrow>
      update w s' = Inr (e, s') \<and> db_writes (snd (projr (update w s'))) = db_writes s')
   \<and> (cache s (fs_key (w_path w)) = Some e0
        \<and> entry_content_types e0 AND w_content_types w = w_content_types w \<longrightarrow>
      update w s = Inr (e0, s))"
  using update_entry_cached [of "w_path w" "w_content_types w" s e s']
  by (auto simp: update_def update_entry_skip)

lemma dir_a_update_returns: "\<exists>e s'. update dir_a_writer dir_a_state = Inr (e, s')"
  by (simp add: update_def update_entry_def dir_a_writer_def dir_a_state_def FSWriter_def
        empty_state_def fs_key_def db_update_def fetch_def Let_def)

theorem update_idempotent_witness:
  "\<exists>e s'. update dir_a_writer dir_a_state = Inr (e, s')
     \<and> update dir_a_writer s' = Inr (e, s')
     \<and> db_writes (snd (projr (update dir_a_writer s'))) = db_writes s'
     \<and> cache s' (fs_key (w_path dir_a_writer)) = Some e
     \<and> entry_content_types e AND w_content_types dir_a_writer = w_content_types dir_a_writer"
proof -
  obtain e s' where first: "update dir_a_writer dir_a_state = Inr (e, s')"
    using dir_a_update_returns by blast
  have cached: "cache s' (fs_key (w_path dir_a_writer)) = Some e
      \<and> entry_content_types e AND w_content_types dir_a_writer = w_content_types dir_a_writer"
    using first update_entry_cached by (simp add: update_def)
  show ?thesis
    using first cached update_idempotent [of dir_a_writer dir_a_state e s']
      update_idempotent [of dir_a_writer s' e s' e]
    by blast
qed

section \<open>Path ancestry: properties\<close>

lemma split_sep_nonempty [simp]: "split_sep s \<noteq> []"
  by (induction s) (auto split: list.splits)

lemma join_split [simp]: "join_sep (split_sep s) = s"
proof (induction s)
  case Nil
  then show ?case by simp
next
  case (Cons c cs)
  obtain w ws where sp: "split_sep cs = w # ws"
    using split_sep_nonempty [of cs] by (cases "split_sep cs") auto
  with Cons show ?case by (cases ws) auto
qed

lemma split_sep_free: "c \<in> set (split_sep s) \<Longrightarrow> sep \<notin> set c"
  by (induction s arbitrary: c) (auto split: list.splits if_splits)

lemma hd_split_sep_empty: "hd (split_sep s) = [] \<longleftrightarrow> s = [] \<or> hd s = sep"
  by (cases s) (auto split: list.splits)

lemma join_sep_append:
  "xs \<noteq> [] \<Longrightarrow> ys \<noteq> [] \<Longrightarrow> join_sep (xs @ ys) = join_sep xs @ sep # join_sep ys"
proof (induction xs rule: join_sep.induct)
  case (2 x)
  then show ?case by (cases ys) auto
qed auto

lemma join_sep_take_prefix: "prefix (join_sep (take n xs)) (join_sep xs)"
proof (cases "take n xs = [] \<or> drop n xs = []")
  case True
  then show ?thesis by auto
next
  case False
  then have "join_sep (take n xs @ drop n xs) = join_sep (take n xs) @ sep # join_sep (drop n xs)"
    by (intro join_sep_append) auto
  then show ?thesis by (simp add: prefix_def)
qed

lemma join_sep_take_shorter:
  assumes "0 < n" "n < length xs"
  shows "length (join_sep (take n xs)) < length (join_sep xs)"
proof -
  have "take n xs \<noteq> []" "drop n xs \<noteq> []" using assms by auto
  then have "join_sep (take n xs @ drop n xs) = join_sep (take n xs) @ sep # join_sep (drop n xs)"
    by (rule join_sep_append)
  then have "length (join_sep xs) = length (join_sep (take n xs)) + Suc (length (join_sep (drop n xs)))"
    by simp
  then show ?thesis by simp
qed

lemma join_sep_take_Suc:
  assumes "Suc i < length xs"
  shows "join_sep (take (Suc (Suc i)) xs) = join_sep (take (Suc i) xs) @ sep # xs ! Suc i"
proof -
  have "take (Suc (Suc i)) xs = take (Suc i) xs @ [xs ! Suc i]"
    using assms by (simp add: take_Suc_conv_app_nth)
  moreover have "take (Suc i) xs \<noteq> []" using assms by auto
  ultimately show ?thesis using join_sep_append [of "take (Suc i) xs" "[xs ! Suc i]"] by simp
qed

lemma join_sep_hd: "xs \<noteq> [] \<Longrightarrow> hd xs \<noteq> [] \<Longrightarrow> join_sep xs \<noteq> [] \<and> hd (join_sep xs) = hd (hd xs)"
  by (induction xs rule: join_sep.induct) auto

lemma norm_step_ok: "comps_ok acc \<Longrightarrow> sep \<notin> set c \<Longrightarrow> comps_ok (norm_step k acc c)"
  by (auto simp: comps_ok_def norm_step_def dest: in_set_butlastD)

lemma norm_fold_ok:
  "comps_ok acc \<Longrightarrow> \<forall>c \<in> set cs. sep \<notin> set c \<Longrightarrow> comps_ok (foldl (norm_step k) acc cs)"
  by (induction cs arbitrary: acc) (auto simp: norm_step_ok)

lemma normpath_nonempty [simp]: "normpath p \<noteq> []"
  by (auto simp: normpath_def Let_def)

lemma initial_slashes_relative: "take 1 p \<noteq> [sep] \<Longrightarrow> initial_slashes p = 0"
  by (simp add: initial_slashes_def)

lemma normpath_relative:
  assumes "take 1 p \<noteq> [sep]" "normpath p \<noteq> ''.''"
  shows "hd (split_sep (normpath p)) \<noteq> []"
proof -
  define comps where "comps = foldl (norm_step 0) [] (split_sep p)"
  have ok: "comps_ok comps"
    unfolding comps_def by (rule norm_fold_ok) (auto simp: comps_ok_def split_sep_free)
  have np: "normpath p = join_sep comps" and ne: "join_sep comps \<noteq> []"
    using assms by (auto simp: normpath_def Let_def initial_slashes_relative comps_def split: if_splits)
  from ne have "comps \<noteq> []" by auto
  moreover from this ok have "hd comps \<noteq> []" "sep \<notin> set (hd comps)" by (auto simp: comps_ok_def)
  ultimately have "hd (join_sep comps) = hd (hd comps)" "hd (hd comps) \<noteq> sep"
    using join_sep_hd [of comps] by (auto, metis hd_in_set)
  then show ?thesis using ne by (simp add: np hd_split_sep_empty)
qed


lemma ancestors_of_relative:
  assumes "take 1 p \<noteq> [sep]" "normpath p \<noteq> ''.''"
  shows "ancestors_of p =
    [] # map (\<lambda>i. join_sep (take (Suc i) (split_sep (normpath p))))
            [0 ..< length (split_sep (normpath p))]"
proof -
  define parts where "parts = split_sep (normpath p)"
  have hd_ne: "hd parts \<noteq> []"
    unfolding parts_def using assms by (rule normpath_relative)
  have parts_ne: "parts \<noteq> []" by (simp add: parts_def)
  have not_root: "normpath p \<noteq> [sep]"
    using hd_ne by (auto simp: parts_def)
  have joins: "join_sep (take (Suc i) parts) \<noteq> []" for i
    using join_sep_hd [of "take (Suc i) parts"] hd_ne parts_ne by (cases parts) auto
  show ?thesis
    using hd_ne parts_ne not_root assms(2) joins
    by (cases parts) (auto simp: ancestors_of_def Let_def parts_def [symmetric])
qed

lemma prefix_chain:
  assumes "parts \<noteq> []" "hd parts \<noteq> []"
    and "Suc i < length ([] # map (\<lambda>i. join_sep (take (Suc i) parts)) [0 ..< length parts])"
  shows "strict_prefix (([] # map (\<lambda>i. join_sep (take (Suc i) parts)) [0 ..< length parts]) ! i)
           (([] # map (\<lambda>i. join_sep (take (Suc i) parts)) [0 ..< length parts]) ! Suc i)"
proof -
  let ?L = "[] # map (\<lambda>i. join_sep (take (Suc i) parts)) [0 ..< length parts]"
  have i: "i < length parts" using assms(3) by simp
  have nxt: "?L ! Suc i = join_sep (take (Suc i) parts)"
    using i by (simp del: upt_Suc)
  show ?thesis
  proof (cases i)
    case 0
    have "join_sep (take (Suc 0) parts) \<noteq> []"
      using assms(1,2) by (cases parts) auto
    then show ?thesis using nxt 0 by (cases "join_sep (take (Suc 0) parts)") (simp_all del: upt_Suc)
  next
    case (Suc j)
    then have j: "Suc j < length parts" using i by simp
    have "?L ! i = join_sep (take (Suc j) parts)"
      using Suc j by (simp del: upt_Suc)
    then show ?thesis
      using nxt Suc join_sep_take_Suc [OF j] by (simp add: strict_prefix_def prefix_def del: upt_Suc)
  qed
qed

lemma normpath_absolute:
  assumes "take 1 p = [sep]"
  shows "\<exists>rest. normpath p = sep # rest"
proof -
  have ne: "p \<noteq> []" using assms by auto
  have "initial_slashes p = 1 \<or> initial_slashes p = 2"
    using assms by (simp add: initial_slashes_def)
  then show ?thesis
    using ne by (auto simp: normpath_def Let_def eval_nat_numeral)
qed

lemma join_sep_Cons: "ys \<noteq> [] \<Longrightarrow> join_sep (x # ys) = x @ sep # join_sep ys"
  by (cases ys) simp_all

lemma ancestors_of_absolute:
  assumes "take 1 p = [sep]" "normpath p \<noteq> [sep]"
  shows "ancestors_of p =
    map (\<lambda>i. if i = 0 then [sep] else join_sep (take (Suc i) (split_sep (normpath p))))
        [0 ..< length (split_sep (normpath p))]"
proof -
  obtain rest where np: "normpath p = sep # rest"
    using normpath_absolute [OF assms(1)] by blast
  define parts where "parts = split_sep (normpath p)"
  have parts: "parts = [] # split_sep rest" by (simp add: parts_def np)
  have nd: "normpath p \<noteq> ''.''" using np by (simp add: sep_def)
  have f: "(let j = join_sep (take (i + 1) parts) in if j = [] then [sep] else j)
           = (if i = 0 then [sep] else join_sep (take (Suc i) parts))" for i
  proof (cases i)
    case 0
    then show ?thesis by (simp add: parts)
  next
    case (Suc j)
    have "take (Suc i) parts = [] # take i (split_sep rest)" by (simp add: parts)
    moreover have "take i (split_sep rest) \<noteq> []" using Suc by simp
    ultimately have "join_sep (take (Suc i) parts) = sep # join_sep (take i (split_sep rest))"
      by (simp add: join_sep_Cons)
    then show ?thesis using Suc by simp
  qed
  have "ancestors_of p =
      (case parts of [] \<Rightarrow> [] | p0 # _ \<Rightarrow> if p0 \<noteq> [] then [[]] else [])
      @ map (\<lambda>i. let j = join_sep (take (i + 1) parts) in if j = [] then [sep] else j)
            [0 ..< length parts]"
    unfolding ancestors_of_def parts_def using assms(2) nd by (simp only: Let_def if_False)
  also have "\<dots> = map (\<lambda>i. let j = join_sep (take (i + 1) parts) in if j = [] then [sep] else j)
            [0 ..< length parts]"
    by (simp add: parts)
  also have "\<dots> = map (\<lambda>i. if i = 0 then [sep] else join_sep (take (Suc i) parts))
            [0 ..< length parts]"
    by (rule map_cong [OF refl]) (rule f)
  finally show ?thesis by (simp only: parts_def)
qed

lemma prefix_chain_abs:
  assumes "parts \<noteq> []" "hd parts = []" "Suc i < length parts"
  shows "prefix (map (\<lambda>i. if i = 0 then [sep] else join_sep (take (Suc i) parts))
                   [0 ..< length parts] ! i)
                (map (\<lambda>i. if i = 0 then [sep] else join_sep (take (Suc i) parts))
                   [0 ..< length parts] ! Suc i)
         \<and> (parts ! 1 \<noteq> [] \<longrightarrow>
              strict_prefix (map (\<lambda>i. if i = 0 then [sep] else join_sep (take (Suc i) parts))
                               [0 ..< length parts] ! i)
                            (map (\<lambda>i. if i = 0 then [sep] else join_sep (take (Suc i) parts))
                               [0 ..< length parts] ! Suc i))"
proof -
  let ?f = "\<lambda>i. if i = 0 then [sep] else join_sep (take (Suc i) parts)"
  have a: "map ?f [0 ..< length parts] ! i = ?f i"
    using assms(3) by (simp del: upt_Suc)
  have b: "map ?f [0 ..< length parts] ! Suc i = join_sep (take (Suc (Suc i)) parts)"
    using assms(3) by (simp del: upt_Suc)
  have step: "join_sep (take (Suc (Suc i)) parts) = join_sep (take (Suc i) parts) @ sep # parts ! Suc i"
    using assms(3) by (rule join_sep_take_Suc)
  show ?thesis
  proof (cases i)
    case 0
    have "join_sep (take (Suc 0) parts) = []"
      using assms(1,2) by (cases parts) simp_all
    then have "join_sep (take (Suc (Suc 0)) parts) = sep # parts ! 1"
      using step 0 by simp
    then show ?thesis
      unfolding a b using 0 by (simp add: strict_prefix_def)
  next
    case (Suc j)
    then show ?thesis
      unfolding a b using step by (simp add: strict_prefix_def prefix_def)
  qed
qed

text \<open>
  C8. \<^verbatim>\<open>ancestors_of\<close> is a function from paths to finite lists, and the list is
  determined by the normalized path. A path that normalizes to the absolute root
  yields only the root, a path that normalizes to the current directory yields the
  single empty root marker. A relative path that does not normalize to the current
  directory yields the empty root marker and then the prefixes of its normalized form,
  component by component. An absolute path that does not normalize to the root yields
  the root and then the prefixes of its normalized form, component by component. In
  both cases the last entry is the normalized path, which is the path itself only when
  the path is in normal form, every entry is a prefix of the normalized path, and each
  entry is a prefix of the next one: a proper prefix, unless the normalized path starts
  with two slashes, where the root is yielded twice.
\<close>

theorem ancestors_of_spec:
  "ancestors_of ''/'' = [''/'']
   \<and> ancestors_of ''.'' = [[]]
   \<and> (normpath p = ''/'' \<longrightarrow> ancestors_of p = [''/''])
   \<and> (normpath p = ''.'' \<longrightarrow> ancestors_of p = [[]])
   \<and> (take 1 p \<noteq> ''/'' \<and> normpath p \<noteq> ''.'' \<longrightarrow>
        ancestors_of p =
          [] # map (\<lambda>i. join_sep (take (Suc i) (split_sep (normpath p))))
                  [0 ..< length (split_sep (normpath p))]
        \<and> last (ancestors_of p) = normpath p
        \<and> (\<forall>a \<in> set (ancestors_of p). prefix a (normpath p))
        \<and> (\<forall>i. Suc i < length (ancestors_of p) \<longrightarrow>
              strict_prefix (ancestors_of p ! i) (ancestors_of p ! Suc i)))
   \<and> (take 1 p = ''/'' \<and> normpath p \<noteq> ''/'' \<longrightarrow>
        ancestors_of p =
          map (\<lambda>i. if i = 0 then ''/'' else join_sep (take (Suc i) (split_sep (normpath p))))
              [0 ..< length (split_sep (normpath p))]
        \<and> hd (ancestors_of p) = ''/''
        \<and> last (ancestors_of p) = normpath p
        \<and> (\<forall>a \<in> set (ancestors_of p). prefix a (normpath p))
        \<and> (\<forall>i. Suc i < length (ancestors_of p) \<longrightarrow>
              prefix (ancestors_of p ! i) (ancestors_of p ! Suc i)
              \<and> (take 2 (normpath p) \<noteq> ''//'' \<longrightarrow>
                   strict_prefix (ancestors_of p ! i) (ancestors_of p ! Suc i))))"
proof (intro conjI impI)
  show "ancestors_of ''/'' = [''/'']"
    by (simp add: ancestors_of_def normpath_def initial_slashes_def norm_step_def sep_def Let_def)
  show "ancestors_of ''.'' = [[]]"
    by (simp add: ancestors_of_def normpath_def initial_slashes_def norm_step_def sep_def Let_def)
next
  assume "normpath p = ''/''"
  then show "ancestors_of p = [''/'']" by (simp add: ancestors_of_def sep_def)
next
  assume "normpath p = ''.''"
  then show "ancestors_of p = [[]]" by (simp add: ancestors_of_def sep_def)
next
  assume rel: "take 1 p \<noteq> ''/'' \<and> normpath p \<noteq> ''.''"
  then have a: "take 1 p \<noteq> [sep]" and b: "normpath p \<noteq> ''.''" by (simp_all add: sep_def)
  define parts where "parts = split_sep (normpath p)"
  have eq: "ancestors_of p = [] # map (\<lambda>i. join_sep (take (Suc i) parts)) [0 ..< length parts]"
    unfolding parts_def using a b by (rule ancestors_of_relative)
  show "ancestors_of p =
          [] # map (\<lambda>i. join_sep (take (Suc i) (split_sep (normpath p))))
                  [0 ..< length (split_sep (normpath p))]"
    using eq by (simp add: parts_def)
  have parts_ne: "parts \<noteq> []" by (simp add: parts_def)
  have hd_ne: "hd parts \<noteq> []" unfolding parts_def using a b by (rule normpath_relative)
  have "last (ancestors_of p) = join_sep (take (length parts) parts)"
    using parts_ne by (simp add: eq last_map del: upt_Suc)
  then show "last (ancestors_of p) = normpath p" by (simp add: parts_def)
  have "prefix (join_sep (take n parts)) (normpath p)" for n
    using join_sep_take_prefix [of n parts] by (simp add: parts_def)
  then show "\<forall>a \<in> set (ancestors_of p). prefix a (normpath p)"
    unfolding eq by (auto simp del: upt_Suc)
  show "\<forall>i. Suc i < length (ancestors_of p) \<longrightarrow>
          strict_prefix (ancestors_of p ! i) (ancestors_of p ! Suc i)"
    unfolding eq using prefix_chain [OF parts_ne hd_ne] by blast
next
  assume ab: "take 1 p = ''/'' \<and> normpath p \<noteq> ''/''"
  then have a: "take 1 p = [sep]" and b: "normpath p \<noteq> [sep]" by (simp_all add: sep_def)
  obtain rest where np: "normpath p = sep # rest"
    using normpath_absolute [OF a] by blast
  have rest_ne: "rest \<noteq> []" using b np by simp
  define parts where "parts = split_sep (normpath p)"
  let ?f = "\<lambda>i. if i = 0 then [sep] else join_sep (take (Suc i) parts)"
  have parts: "parts = [] # split_sep rest" by (simp add: parts_def np)
  have parts_ne: "parts \<noteq> []" and hd0: "hd parts = []" and len: "Suc 0 < length parts"
    using parts by (simp_all add: Suc_lessI)
  have eq: "ancestors_of p = map ?f [0 ..< length parts]"
    unfolding parts_def using a b by (rule ancestors_of_absolute)
  show "ancestors_of p =
          map (\<lambda>i. if i = 0 then ''/'' else join_sep (take (Suc i) (split_sep (normpath p))))
              [0 ..< length (split_sep (normpath p))]"
    using eq by (simp add: parts_def sep_def)
  show "hd (ancestors_of p) = ''/''"
    using parts_ne by (simp add: eq hd_map upt_conv_Cons sep_def del: upt_Suc)
  have "last (ancestors_of p) = ?f (length parts - 1)"
    using parts_ne by (simp add: eq last_map del: upt_Suc)
  also have "\<dots> = join_sep (take (length parts) parts)"
    using len by simp
  finally show "last (ancestors_of p) = normpath p" by (simp add: parts_def)
  have "prefix (join_sep (take n parts)) (normpath p)" for n
    using join_sep_take_prefix [of n parts] by (simp add: parts_def)
  moreover have "prefix [sep] (normpath p)" by (simp add: np)
  ultimately show "\<forall>a \<in> set (ancestors_of p). prefix a (normpath p)"
    unfolding eq by (auto simp del: upt_Suc)
  have second: "take 2 (normpath p) \<noteq> ''//'' \<Longrightarrow> parts ! 1 \<noteq> []"
  proof
    assume t: "take 2 (normpath p) \<noteq> ''//''" and e: "parts ! 1 = []"
    have "hd (split_sep rest) = []" using e parts by (simp add: hd_conv_nth)
    then have "hd rest = sep" using rest_ne by (simp add: hd_split_sep_empty)
    then have "take 2 (normpath p) = ''//''"
      using rest_ne np by (cases rest) (simp_all add: sep_def eval_nat_numeral)
    with t show False by simp
  qed
  show "\<forall>i. Suc i < length (ancestors_of p) \<longrightarrow>
          prefix (ancestors_of p ! i) (ancestors_of p ! Suc i)
          \<and> (take 2 (normpath p) \<noteq> ''//'' \<longrightarrow>
               strict_prefix (ancestors_of p ! i) (ancestors_of p ! Suc i))"
  proof (intro allI impI)
    fix i assume "Suc i < length (ancestors_of p)"
    then have i: "Suc i < length parts" by (simp add: eq)
    show "prefix (ancestors_of p ! i) (ancestors_of p ! Suc i)
          \<and> (take 2 (normpath p) \<noteq> ''//'' \<longrightarrow>
               strict_prefix (ancestors_of p ! i) (ancestors_of p ! Suc i))"
      unfolding eq using prefix_chain_abs [OF parts_ne hd0 i] second by blast
  qed
qed

lemma ancestors_examples_norm:
  "normpath ''/..'' = ''/'' \<and> normpath ''a/..'' = ''.'' \<and> normpath ''a/b'' = ''a/b''
   \<and> normpath ''/a/b'' = ''/a/b''"
  by code_simp

theorem ancestors_of_spec_witness:
  "normpath ''/..'' = ''/'' \<and> ancestors_of ''/..'' = [''/'']
   \<and> normpath ''a/..'' = ''.'' \<and> ancestors_of ''a/..'' = [[]]
   \<and> take 1 ''a/b'' \<noteq> ''/'' \<and> normpath ''a/b'' \<noteq> ''.''
   \<and> ancestors_of ''a/b'' = [[], ''a'', ''a/b'']
   \<and> last (ancestors_of ''a/b'') = normpath ''a/b''
   \<and> prefix ''a'' (normpath ''a/b'')
   \<and> strict_prefix (ancestors_of ''a/b'' ! 0) (ancestors_of ''a/b'' ! Suc 0)
   \<and> take 1 ''/a/b'' = ''/'' \<and> normpath ''/a/b'' \<noteq> ''/'' \<and> take 2 (normpath ''/a/b'') \<noteq> ''//''
   \<and> ancestors_of ''/a/b'' = [''/'', ''/a'', ''/a/b'']
   \<and> hd (ancestors_of ''/a/b'') = ''/''
   \<and> last (ancestors_of ''/a/b'') = normpath ''/a/b''
   \<and> prefix ''/a'' (normpath ''/a/b'')
   \<and> strict_prefix (ancestors_of ''/a/b'' ! 0) (ancestors_of ''/a/b'' ! Suc 0)"
proof -
  note np = ancestors_examples_norm
  have r1: "ancestors_of ''/..'' = [''/'']"
    using ancestors_of_spec [of "''/..''"] np by simp
  have r2: "ancestors_of ''a/..'' = [[]]"
    using ancestors_of_spec [of "''a/..''"] np by simp
  have h3: "take 1 ''a/b'' \<noteq> ''/'' \<and> normpath ''a/b'' \<noteq> ''.''" using np by simp
  have e3: "ancestors_of ''a/b'' = [[], ''a'', ''a/b'']"
    using ancestors_of_spec [of "''a/b''"] h3 by (simp add: np sep_def)
  have l3: "last (ancestors_of ''a/b'') = normpath ''a/b''"
    using ancestors_of_spec [of "''a/b''"] h3 by blast
  have m3: "\<forall>a \<in> set (ancestors_of ''a/b''). prefix a (normpath ''a/b'')"
    using ancestors_of_spec [of "''a/b''"] h3 by blast
  have p3: "prefix ''a'' (normpath ''a/b'')" using m3 unfolding e3 by simp
  have c3: "\<forall>i. Suc i < length (ancestors_of ''a/b'') \<longrightarrow>
              strict_prefix (ancestors_of ''a/b'' ! i) (ancestors_of ''a/b'' ! Suc i)"
    using ancestors_of_spec [of "''a/b''"] h3 by blast
  have "Suc 0 < length (ancestors_of ''a/b'')" by (simp add: e3)
  with c3 have s3: "strict_prefix (ancestors_of ''a/b'' ! 0) (ancestors_of ''a/b'' ! Suc 0)"
    by blast
  have h4: "take 1 ''/a/b'' = ''/'' \<and> normpath ''/a/b'' \<noteq> ''/''" using np by simp
  have t4: "take 2 (normpath ''/a/b'') \<noteq> ''//''" using np by (simp add: eval_nat_numeral)
  have e4: "ancestors_of ''/a/b'' = [''/'', ''/a'', ''/a/b'']"
    using ancestors_of_spec [of "''/a/b''"] h4 by (simp add: np sep_def)
  have d4: "hd (ancestors_of ''/a/b'') = ''/''"
    using ancestors_of_spec [of "''/a/b''"] h4 by blast
  have l4: "last (ancestors_of ''/a/b'') = normpath ''/a/b''"
    using ancestors_of_spec [of "''/a/b''"] h4 by blast
  have m4: "\<forall>a \<in> set (ancestors_of ''/a/b''). prefix a (normpath ''/a/b'')"
    using ancestors_of_spec [of "''/a/b''"] h4 by blast
  have p4: "prefix ''/a'' (normpath ''/a/b'')" using m4 unfolding e4 by simp
  have c4: "\<forall>i. Suc i < length (ancestors_of ''/a/b'') \<longrightarrow>
              prefix (ancestors_of ''/a/b'' ! i) (ancestors_of ''/a/b'' ! Suc i)
              \<and> (take 2 (normpath ''/a/b'') \<noteq> ''//'' \<longrightarrow>
                   strict_prefix (ancestors_of ''/a/b'' ! i) (ancestors_of ''/a/b'' ! Suc i))"
    using ancestors_of_spec [of "''/a/b''"] h4 by blast
  have "Suc 0 < length (ancestors_of ''/a/b'')" by (simp add: e4)
  with c4 t4 have s4: "strict_prefix (ancestors_of ''/a/b'' ! 0) (ancestors_of ''/a/b'' ! Suc 0)"
    by blast
  from np r1 r2 h3 e3 l3 p3 s3 h4 t4 e4 d4 l4 p4 s4 show ?thesis
    by (intro conjI) (simp_all only: simp_thms)
qed

text \<open>
  The chain ends with the normalized path, not with the path as it was given: a relative
  path with a trailing slash is not in its own chain.
\<close>

theorem ancestors_of_trailing_slash:
  "take 1 ''a/b/'' \<noteq> ''/''
   \<and> ancestors_of ''a/b/'' = [[], ''a'', ''a/b'']
   \<and> last (ancestors_of ''a/b/'') \<noteq> ''a/b/''
   \<and> ''a/b/'' \<notin> set (ancestors_of ''a/b/'')"
  by code_simp

text \<open>The root comes twice when the normalized path keeps two leading slashes.\<close>

lemma ancestors_of_double_slash: "ancestors_of ''//a'' = [''/'', ''/'', ''//a'']"
  by code_simp

lemma wsum_join: "xs \<noteq> [] \<Longrightarrow> Suc (length (join_sep xs)) = wsum xs"
  by (induction xs rule: join_sep.induct) (auto simp: wsum_def)

lemma wsum_butlast: "wsum (butlast xs) \<le> wsum xs"
  by (induction xs) (auto simp: wsum_def)

lemma wsum_norm_step:
  "wsum (norm_step k acc c) \<le> wsum acc + (if c = [] then 0 else Suc (length c))"
  using wsum_butlast [of acc] by (auto simp: norm_step_def wsum_def)

lemma wsum_norm_fold:
  "wsum (foldl (norm_step k) acc cs) \<le> wsum acc + wsum (filter (\<lambda>c. c \<noteq> []) cs)"
proof (induction cs arbitrary: acc)
  case Nil
  then show ?case by (simp add: wsum_def)
next
  case (Cons c cs)
  have "wsum (foldl (norm_step k) (norm_step k acc c) cs)
      \<le> wsum (norm_step k acc c) + wsum (filter (\<lambda>c. c \<noteq> []) cs)"
    by (rule Cons.IH)
  with wsum_norm_step [of k acc c] show ?case by (auto simp: wsum_def)
qed

lemma wsum_filter: "wsum (filter (\<lambda>c. c \<noteq> []) cs) + length (filter (\<lambda>c. c = []) cs) = wsum cs"
  by (induction cs) (auto simp: wsum_def)

lemma initial_slashes_empties:
  "initial_slashes p \<le> length (filter (\<lambda>c. c = []) (split_sep p))"
proof (cases p)
  case Nil
  then show ?thesis by (simp add: initial_slashes_def)
next
  case (Cons a q)
  show ?thesis
  proof (cases q)
    case Nil
    then show ?thesis using Cons by (auto simp: initial_slashes_def)
  next
    case (Cons b r)
    then show ?thesis using \<open>p = a # q\<close>
      by (auto simp: initial_slashes_def split: list.splits)
  qed
qed

lemma initial_slashes_le_length: "initial_slashes p \<le> length p"
  by (cases p; cases "tl p") (auto simp: initial_slashes_def)

lemma normpath_length:
  assumes "p \<noteq> []"
  shows "length (normpath p) \<le> length p"
proof -
  define k where "k = initial_slashes p"
  define comps where "comps = foldl (norm_step k) [] (split_sep p)"
  have ok: "comps_ok comps"
    unfolding comps_def by (rule norm_fold_ok) (auto simp: comps_ok_def split_sep_free)
  have "wsum comps \<le> wsum (filter (\<lambda>c. c \<noteq> []) (split_sep p))"
    using wsum_norm_fold [of k "[]" "split_sep p"] by (simp add: comps_def wsum_def)
  moreover have "wsum (split_sep p) = Suc (length p)"
    using wsum_join [of "split_sep p"] by simp
  ultimately have bound: "wsum comps + k \<le> Suc (length p)"
    using wsum_filter [of "split_sep p"] initial_slashes_empties [of p] by (simp add: k_def)
  have np: "normpath p =
      (let res = (if k \<noteq> 0 then replicate k sep @ join_sep comps else join_sep comps)
       in if res = [] then ''.'' else res)"
    using assms by (simp add: normpath_def Let_def k_def comps_def)
  show ?thesis
  proof (cases "comps = []")
    case True
    have "0 < length p" using assms by simp
    then show ?thesis
      using True initial_slashes_le_length [of p]
      by (auto simp: np Let_def k_def [symmetric] simp del: length_greater_0_conv)
  next
    case False
    then have "Suc (length (join_sep comps)) = wsum comps" by (rule wsum_join)
    moreover have "0 < length p" using assms by simp
    ultimately show ?thesis
      using bound by (auto simp: np Let_def simp del: length_greater_0_conv)
  qed
qed

lemma ancestors_butlast_ne:
  assumes "a \<in> set (butlast (ancestors_of p))"
  shows "a \<noteq> p"
proof (cases "normpath p = [sep] \<or> normpath p = ''.''")
  case True
  then show ?thesis using assms by (auto simp: ancestors_of_def Let_def sep_def)
next
  case False
  define parts where "parts = split_sep (normpath p)"
  define f where "f = (\<lambda>i. let j = join_sep (take (i + 1) parts) in if j = [] then [sep] else j)"
  define pre :: "string list"
    where "pre = (case parts of [] \<Rightarrow> [] | p0 # _ \<Rightarrow> if p0 \<noteq> [] then [[]] else [])"
  have p_ne: "p \<noteq> []" using False by (auto simp: normpath_def)
  have p_nr: "p \<noteq> [sep]"
    using False by (auto simp: normpath_def initial_slashes_def norm_step_def Let_def)
  have parts_ne: "parts \<noteq> []" by (simp add: parts_def)
  have eq: "ancestors_of p = pre @ map f [0 ..< length parts]"
    using False by (simp add: ancestors_of_def Let_def parts_def f_def pre_def)
  have "butlast (map f [0 ..< length parts]) = map f [0 ..< length parts - 1]"
    by (simp add: butlast_conv_take take_map del: upt_Suc)
  then have "butlast (ancestors_of p) = pre @ map f [0 ..< length parts - 1]"
    using parts_ne by (simp add: eq butlast_append del: upt_Suc)
  with assms consider "a \<in> set pre" | i where "Suc i < length parts" "a = f i"
    by (auto simp: less_diff_conv)
  then show ?thesis
  proof cases
    case 1
    then have "a = []" by (auto simp: pre_def split: list.splits if_splits)
    then show ?thesis using p_ne by simp
  next
    case 2
    show ?thesis
    proof (cases "join_sep (take (i + 1) parts) = []")
      case True
      then show ?thesis using 2 p_nr by (simp add: f_def)
    next
      case False
      have "length (join_sep (take (Suc i) parts)) < length (join_sep parts)"
        using 2(1) by (intro join_sep_take_shorter) auto
      also have "\<dots> = length (normpath p)" by (simp add: parts_def)
      also have "\<dots> \<le> length p" using p_ne by (rule normpath_length)
      finally show ?thesis using False 2(2) by (auto simp: f_def)
    qed
  qed
qed

section \<open>The metadata reconstructor: properties\<close>

lemma groupby_keys: "map fst (groupby f xs) = remdups_adj (map f xs)"
proof (induction f xs rule: groupby.induct)
  case (1 f)
  then show ?case by simp
next
  case (2 f x xs)
  have "remdups_adj (f x # map f xs) = f x # remdups_adj (dropWhile (\<lambda>y. y = f x) (map f xs))"
    by (rule remdups_adj_Cons')
  also have "dropWhile (\<lambda>y. y = f x) (map f xs) = map f (dropWhile (\<lambda>y. f y = f x) xs)"
    by (simp add: dropWhile_map comp_def)
  finally show ?case using 2 by simp
qed

lemma groupby_concat: "concat (map snd (groupby f xs)) = xs"
  by (induction f xs rule: groupby.induct) auto

lemma takeWhile_all: "\<forall>r \<in> set (takeWhile P xs). P r"
  by (auto dest: set_takeWhileD)

lemma groupby_groups:
  "(k, g) \<in> set (groupby f xs) \<Longrightarrow> g \<noteq> [] \<and> (\<forall>r \<in> set g. f r = k)"
proof (induction f xs rule: groupby.induct)
  case (1 f)
  then show ?case by simp
next
  case (2 f x xs)
  from "2.prems" consider "k = f x" "g = x # takeWhile (\<lambda>y. f y = f x) xs"
    | "(k, g) \<in> set (groupby f (dropWhile (\<lambda>y. f y = f x) xs))"
    by auto
  then show ?case
  proof cases
    case 1
    have "f r = k" if "r \<in> set g" for r
    proof (cases "r = x")
      case True
      then show ?thesis by (simp add: 1(1))
    next
      case False
      then have "r \<in> set (takeWhile (\<lambda>y. f y = f x) xs)"
        using that by (simp add: 1(2))
      then have "f r = f x"
        by (rule takeWhile_all [rule_format])
      then show ?thesis by (simp only: 1(1))
    qed
    moreover have "g \<noteq> []" by (simp add: 1(2))
    ultimately show ?thesis by blast
  next
    case 2
    then show ?thesis by (rule "2.IH")
  qed
qed

lemma row_step_null: "jr_key r = None \<Longrightarrow> row_step d r = d"
  by (simp add: row_step_def)

lemma fold_row_step_filter:
  "foldl row_step d (filter (\<lambda>r. jr_key r \<noteq> None) g) = foldl row_step d g"
  by (induction g arbitrary: d) (auto simp: row_step_null)

lemma mv_path_reconstruct: "map mv_path (reconstruct_meta rows) = remdups_adj (map jr_path rows)"
proof -
  have "map mv_path (reconstruct_meta rows) = map fst (groupby jr_path rows)"
    by (simp add: reconstruct_meta_def group_view_def Let_def split_def)
  then show ?thesis by (simp add: groupby_keys)
qed

lemma sorted_distinct_adj:
  fixes xs :: "'a::linorder list"
  shows "sorted xs \<Longrightarrow> distinct_adj xs \<Longrightarrow> distinct xs"
proof (induction xs)
  case Nil
  then show ?case by simp
next
  case (Cons x xs)
  have "x \<notin> set xs"
  proof
    assume mem: "x \<in> set xs"
    then obtain y ys where xs: "xs = y # ys" by (cases xs) auto
    have "x \<le> y" using Cons.prems(1) xs by simp
    moreover have "y \<le> x" using Cons.prems(1) xs mem by auto
    moreover have "x \<noteq> y" using Cons.prems(2) xs by simp
    ultimately show False by simp
  qed
  moreover have "distinct xs"
    using Cons by (cases xs) auto
  ultimately show ?case by simp
qed

lemma sorted_remdups_adj_distinct:
  fixes xs :: "'a::linorder list"
  shows "sorted xs \<Longrightarrow> distinct (remdups_adj xs)"
  by (rule sorted_distinct_adj) simp_all

lemma group_view_filtered: "group_view g = view_of_group g"
  unfolding group_view_def view_of_group_def Let_def fold_row_step_filter
  by (cases g) simp

text \<open>
  C7. \<^verbatim>\<open>_reconstruct_meta\<close> yields one view per maximal run of consecutive rows with
  the same path, in the order of the input and without sorting it: the paths of the
  views are the paths of the rows with adjacent repetitions removed. When the rows are
  sorted by path, that is one view per distinct path. The runs are not empty, cover the
  input in order, and each view takes its fs fields from the last row of its run; a row
  whose key is null leaves the sections as they are.
\<close>

theorem reconstruct_meta_groups:
  "map mv_path (reconstruct_meta rows) = remdups_adj (map jr_path rows)
   \<and> (sorted (map jr_path rows) \<longrightarrow>
        distinct (map mv_path (reconstruct_meta rows))
        \<and> set (map mv_path (reconstruct_meta rows)) = jr_path ` set rows)
   \<and> concat (map snd (groupby jr_path rows)) = rows
   \<and> (\<forall>g \<in> set (groupby jr_path rows). snd g \<noteq> [] \<and> (\<forall>r \<in> set (snd g). jr_path r = fst g))
   \<and> reconstruct_meta rows = map view_of_group (groupby jr_path rows)
   \<and> (\<forall>d r. jr_key r = None \<longrightarrow> row_step d r = d)"
proof (intro conjI impI allI ballI)
  show paths: "map mv_path (reconstruct_meta rows) = remdups_adj (map jr_path rows)"
    by (rule mv_path_reconstruct)
  show "distinct (map mv_path (reconstruct_meta rows))" if "sorted (map jr_path rows)"
    using that by (simp add: paths sorted_remdups_adj_distinct)
  show "set (map mv_path (reconstruct_meta rows)) = jr_path ` set rows"
    by (simp only: paths remdups_adj_set set_map)
  show "concat (map snd (groupby jr_path rows)) = rows"
    by (rule groupby_concat)
  show "snd g \<noteq> []" if "g \<in> set (groupby jr_path rows)" for g
    using that groupby_groups [of "fst g" "snd g" jr_path rows] by simp
  show "jr_path r = fst g" if "g \<in> set (groupby jr_path rows)" "r \<in> set (snd g)" for g r
    using that groupby_groups [of "fst g" "snd g" jr_path rows] by simp
  show "reconstruct_meta rows = map view_of_group (groupby jr_path rows)"
    by (simp add: reconstruct_meta_def group_view_filtered)
  show "row_step d r = d" if "jr_key r = None" for d r
    using that by (rule row_step_null)
qed


lemma example_rows_sorted: "sorted (map jr_path example_rows)"
  by (simp add: example_rows_def)

theorem reconstruct_meta_groups_witness:
  "sorted (map jr_path example_rows)
   \<and> map mv_path (reconstruct_meta example_rows) = [''a'', ''b'']
   \<and> distinct (map mv_path (reconstruct_meta example_rows))
   \<and> concat (map snd (groupby jr_path example_rows)) = example_rows
   \<and> jr_key (example_rows ! 2) = None
   \<and> row_step Map.empty (example_rows ! 2) = Map.empty"
proof -
  have k: "jr_key (example_rows ! 2) = None" by (simp add: example_rows_def)
  have paths: "map jr_path example_rows = [''a'', ''a'', ''b'']" by (simp add: example_rows_def)
  note main = reconstruct_meta_groups [of example_rows]
  have "map mv_path (reconstruct_meta example_rows) = remdups_adj (map jr_path example_rows)"
    using main by blast
  then have "map mv_path (reconstruct_meta example_rows) = [''a'', ''b'']"
    by (simp only: paths) simp
  moreover have "distinct (map mv_path (reconstruct_meta example_rows))"
    using main example_rows_sorted by blast
  moreover have "concat (map snd (groupby jr_path example_rows)) = example_rows"
    using main by blast
  moreover have "row_step Map.empty (example_rows ! 2) = Map.empty"
    using main k by blast
  ultimately show ?thesis using example_rows_sorted k by blast
qed

section \<open>Scanning: a failing lister\<close>

lemma scan_gen_failure:
  assumes "\<not> fst (ext_list_dir x (scan_target path))"
  shows "scan_gen (Suc n) x path partial callback maxdepth depth delay s = Some ([], s)"
proof -
  have "(if (case path of None \<Rightarrow> ROOT_PATH | Some p \<Rightarrow> if p = [] then ROOT_PATH else p) = []
         then ''.''
         else (case path of None \<Rightarrow> ROOT_PATH | Some p \<Rightarrow> if p = [] then ROOT_PATH else p))
        = scan_target path"
    by (simp add: scan_target_def ROOT_PATH_def split: option.splits)
  moreover obtain dirs files where "ext_list_dir x (scan_target path) = (False, dirs, files)"
    using assms by (cases "ext_list_dir x (scan_target path)") auto
  ultimately show ?thesis
    by (simp add: Let_def)
qed

lemma scan_dirs_append:
  "scan_dirs n x (ds1 @ ds2) partial maxdepth depth delay acc =
     (case scan_dirs n x ds1 partial maxdepth depth delay acc of
        None \<Rightarrow> None
      | Some acc1 \<Rightarrow> scan_dirs n x ds2 partial maxdepth depth delay acc1)"
  by (induction ds1 arbitrary: acc) (auto split: option.splits)

lemma scan_dirs_skip:
  assumes "\<not> fst (ext_list_dir x (scan_target (Some d)))"
  shows "scan_dirs (Suc n) x (d # ds) partial maxdepth depth delay acc =
         scan_dirs (Suc n) x ds partial maxdepth depth delay acc"
  using scan_gen_failure [OF assms] by simp

text \<open>
  C9. When the lister reports failure for the target of a scan, the scan yields no batch,
  calls no callback, schedules nothing and returns normally with the state unchanged.
  In the loop over the directories of a level, a directory whose listing fails
  contributes nothing: the loop yields the batches and leaves the state it would
  without that directory, so what the other directories yield is unaffected.
\<close>

theorem scan_failure_contained:
  "(\<not> fst (ext_list_dir x (scan_target path)) \<longrightarrow>
      scan (Suc n) x path partial callback maxdepth depth delay s = Some ([], s))
   \<and> (\<not> fst (ext_list_dir x (scan_target (Some d))) \<longrightarrow>
      scan_dirs (Suc n) x (ds1 @ d # ds2) partial maxdepth depth delay acc =
      scan_dirs (Suc n) x (ds1 @ ds2) partial maxdepth depth delay acc)"
  using scan_gen_failure [of x path n partial callback maxdepth depth delay s]
    scan_dirs_skip [of x d n ds2 partial maxdepth depth delay]
  by (simp add: scan_def scan_dirs_append [of _ _ ds1] split: option.splits)

lemma example_scan:
  "map_option (\<lambda>r. (map dom (fst r), snd r)) (scan 2 example_ext None True False None 0 0 empty_state)
   = Some ([{''f.txt''}, {''b/g.txt''}], empty_state)"
  by (simp add: scan_def example_ext_def empty_state_def ROOT_PATH_def analyze_def
        analyze_path_def dict_of_def Let_def eval_nat_numeral)


theorem scan_failure_contained_witness:
  "\<not> fst (ext_list_dir example_ext (scan_target (Some ''a'')))
   \<and> scan (Suc 0) example_ext (Some ''a'') True False None 1 0 empty_state = Some ([], empty_state)
   \<and> scan_dirs (Suc 0) example_ext ([] @ ''a'' # [''b'']) True None 1 0 ([], empty_state)
       = scan_dirs (Suc 0) example_ext ([] @ [''b'']) True None 1 0 ([], empty_state)"
proof -
  have fails: "\<not> fst (ext_list_dir example_ext (scan_target (Some ''a'')))"
    by (simp add: example_ext_def scan_target_def)
  show ?thesis
    using fails
      scan_failure_contained [of example_ext "Some ''a''" 0 True False None 1 0 empty_state
        "''a''" "[]" "[''b'']" "([], empty_state)"]
    by blast
qed

section \<open>Reading metadata: the keys of the result\<close>

lemma dom_dict_of: "dom (dict_of pairs) = fst ` set pairs"
  by (simp add: dict_of_def dom_map_of_conv_image_fst)

lemma batches_concat: "0 < n \<Longrightarrow> concat (batches n xs) = xs"
proof (induction n xs rule: batches.induct)
  case (1 n xs)
  show ?case
  proof (cases "xs = []")
    case True
    then show ?thesis by simp
  next
    case False
    then have "batches n xs = take n xs # batches n (drop n xs)"
      using "1.prems" by (subst batches.simps) simp
    moreover have "concat (batches n (drop n xs)) = drop n xs"
      using False "1.prems" by (intro "1.IH") auto
    ultimately show ?thesis by simp
  qed
qed

lemma dom_analyze_fold:
  "dom (foldl (\<lambda>acc batch. acc ++ dict_of (map (\<lambda>path. (path, f path)) batch)) acc bs)
     = dom acc \<union> \<Union> (set ` set bs)"
proof (induction bs arbitrary: acc)
  case Nil
  then show ?case by simp
next
  case (Cons b bs)
  have "dom (acc ++ dict_of (map (\<lambda>path. (path, f path)) b)) = dom acc \<union> set b"
    by (simp add: dom_dict_of image_image Un_commute)
  then show ?case by (simp add: Cons.IH Un_assoc)
qed

lemma dom_analyze: "dom (analyze x paths partial) = set paths"
proof -
  have c: "concat (batches 10 paths) = paths" by (rule batches_concat) simp
  have "\<Union> (set ` set (batches 10 paths)) = set (concat (batches 10 paths))" by simp
  also have "\<dots> = set paths" by (simp only: c)
  finally show ?thesis
    by (simp add: analyze_def dom_analyze_fold del: batches.simps)
qed

lemma join_rows_paths: "jr_path ` set (join_rows p r ms) = {p}"
proof (cases ms)
  case Nil
  then show ?thesis by (simp add: join_rows_def)
next
  case (Cons m ms')
  then show ?thesis by (auto simp: join_rows_def Let_def image_iff)
qed

lemma select_meta_paths:
  "jr_path ` set (select_meta s paths None) = {p \<in> set paths. fs s p \<noteq> None}"
proof -
  have "jr_path ` set (case fs s p of None \<Rightarrow> []
          | Some r \<Rightarrow> join_rows p r (filter (\<lambda>m. meta_fs_id m = row_id r) (meta s)))
        = (if fs s p = None then {} else {p})" for p
    by (cases "fs s p") (simp_all add: join_rows_paths)
  then show ?thesis
    by (auto simp: select_meta_def image_UN split: option.splits if_splits)
qed

lemma dom_stored:
  "dom (dict_of (map (\<lambda>m. (mv_path m, Stored m)) (reconstruct_meta rows))) = jr_path ` set rows"
proof -
  have "dom (dict_of (map (\<lambda>m. (mv_path m, Stored m)) (reconstruct_meta rows)))
        = set (map mv_path (reconstruct_meta rows))"
    by (simp add: dom_dict_of image_image)
  then show ?thesis by (simp only: mv_path_reconstruct remdups_adj_set set_map)
qed


lemma get_batch_ignore_missing:
  "\<exists>d. get_batch x paths None partial True s = Inr (d, s)
       \<and> dom d = {p \<in> set paths. fs s p \<noteq> None}"
  by (simp add: get_batch_def Let_def dom_stored select_meta_paths)

lemma dom_with_missing:
  assumes "dom data \<subseteq> set paths"
  shows "dom (data ++ analyze x (filter (\<lambda>p. data p = None) (remdups paths)) partial) = set paths"
  using assms by (auto simp: dom_analyze)

lemma get_batch_partial:
  "\<exists>d s'. get_batch x paths None True False s = Inr (d, s') \<and> dom d = set paths"
proof -
  define data where
    "data = dict_of (map (\<lambda>m. (mv_path m, Stored m)) (reconstruct_meta (select_meta s paths None)))"
  have sub: "dom data \<subseteq> set paths"
    by (auto simp: data_def dom_stored select_meta_paths)
  have full: "dom data = set paths" if "filter (\<lambda>p. data p = None) (remdups paths) = []"
    using that sub by (auto simp: filter_empty_conv)
  show ?thesis
    using dom_with_missing [OF sub] full
    by (simp add: get_batch_def Let_def data_def [symmetric])
qed

lemma get_batch_full:
  assumes "get_batch x paths None False False s = Inr (d, s')"
  shows "dom d = set paths"
proof -
  define data where
    "data = dict_of (map (\<lambda>m. (mv_path m, Stored m)) (reconstruct_meta (select_meta s paths None)))"
  define missing where "missing = filter (\<lambda>p. data p = None) (remdups paths)"
  have sub: "dom data \<subseteq> set paths"
    by (auto simp: data_def dom_stored select_meta_paths)
  have unfolded: "get_batch x paths None False False s =
      (if missing \<noteq> [] then
         (case save_many x (map (ext_process x False) missing) s of
            Inl err \<Rightarrow> Inl err
          | Inr s1 \<Rightarrow> Inr (data ++ analyze x missing False, s1))
       else Inr (data, s))"
    unfolding get_batch_def Let_def data_def missing_def by (simp split: sum.splits)
  show ?thesis
  proof (cases "missing = []")
    case True
    then have "d = data" using assms unfolded by simp
    moreover have "dom data = set paths"
      using True sub by (auto simp: missing_def filter_empty_conv)
    ultimately show ?thesis by simp
  next
    case False
    then have "d = data ++ analyze x missing False"
      using assms unfolded by (auto split: sum.splits)
    then show ?thesis
      using dom_with_missing [OF sub, of x False] by (simp only: missing_def)
  qed
qed

lemma get_batches_ignore_missing:
  "\<exists>d. get_batches x bs None partial True acc s = Inr (d, s)
       \<and> dom d = dom acc \<union> set (filter (\<lambda>p. fs s p \<noteq> None) (concat bs))"
proof (induction bs arbitrary: acc)
  case Nil
  then show ?case by simp
next
  case (Cons b bs)
  obtain d where d: "get_batch x b None partial True s = Inr (d, s)"
    "dom d = {p \<in> set b. fs s p \<noteq> None}"
    using get_batch_ignore_missing by blast
  obtain d' where d': "get_batches x bs None partial True (acc ++ d) s = Inr (d', s)"
    "dom d' = dom (acc ++ d) \<union> set (filter (\<lambda>p. fs s p \<noteq> None) (concat bs))"
    using Cons.IH by blast
  have "get_batches x (b # bs) None partial True acc s = Inr (d', s)"
    using d(1) d'(1) by simp
  moreover have "dom d = set (filter (\<lambda>p. fs s p \<noteq> None) b)"
    unfolding d(2) by (simp only: set_filter)
  then have "dom d' = dom acc \<union> set (filter (\<lambda>p. fs s p \<noteq> None) (concat (b # bs)))"
    unfolding d'(2) dom_map_add
    by (simp only: concat.simps filter_append set_append Un_assoc Un_commute Un_left_commute)
  ultimately show ?case by blast
qed

lemma get_batches_partial:
  "\<exists>d s'. get_batches x bs None True False acc s = Inr (d, s')
       \<and> dom d = dom acc \<union> set (concat bs)"
proof (induction bs arbitrary: acc s)
  case Nil
  then show ?case by simp
next
  case (Cons b bs)
  obtain d s1 where d: "get_batch x b None True False s = Inr (d, s1)" "dom d = set b"
    using get_batch_partial by blast
  obtain d' s' where d': "get_batches x bs None True False (acc ++ d) s1 = Inr (d', s')"
    "dom d' = dom (acc ++ d) \<union> set (concat bs)"
    using Cons.IH by blast
  have "get_batches x (b # bs) None True False acc s = Inr (d', s')"
    using d(1) d'(1) by simp
  moreover have "dom d' = dom acc \<union> set (concat (b # bs))"
    unfolding d'(2) dom_map_add d(2)
    by (simp only: concat.simps set_append Un_assoc Un_commute Un_left_commute)
  ultimately show ?case by blast
qed

lemma get_batches_full:
  "get_batches x bs None False False acc s = Inr (d, s')
     \<Longrightarrow> dom d = dom acc \<union> set (concat bs)"
proof (induction bs arbitrary: acc s)
  case Nil
  then show ?case by simp
next
  case (Cons b bs)
  from Cons.prems obtain d1 s1 where d1: "get_batch x b None False False s = Inr (d1, s1)"
    and rest: "get_batches x bs None False False (acc ++ d1) s1 = Inr (d, s')"
    by (cases "get_batch x b None False False s") auto
  have "dom d1 = set b" using d1 by (rule get_batch_full)
  moreover have "dom d = dom (acc ++ d1) \<union> set (concat bs)"
    using rest by (rule Cons.IH)
  ultimately show ?case
    unfolding dom_map_add
    by (simp only: concat.simps set_append Un_assoc Un_commute Un_left_commute)
qed

lemma get_ignore_missing_dom:
  "\<exists>d. get x paths None partial True s = Inr (d, s)
       \<and> dom d = {p \<in> set paths. fs s p \<noteq> None}"
proof -
  have u: "concat (batches 999 paths) = paths"
    by (rule batches_concat) simp
  obtain d0 where d0: "get_batches x (batches 999 paths) None partial True Map.empty s = Inr (d0, s)"
    "dom d0 = dom (Map.empty :: string \<rightharpoonup> wrapper)
        \<union> set (filter (\<lambda>p. fs s p \<noteq> None) (concat (batches 999 paths)))"
    using get_batches_ignore_missing by blast
  have "dom d0 = {p \<in> set paths. fs s p \<noteq> None}"
    unfolding d0(2) u by simp
  then show ?thesis
    using d0(1) unfolding get_def by blast
qed

text \<open>
  C6, as amended. Without a content type, \<^verbatim>\<open>get(paths, ignore_missing=True)\<close> returns
  a mapping whose keys are the requested paths that have a row in the store: a subset
  of the requested paths, and all of them when all are stored. It leaves the state as
  it is. \<^verbatim>\<open>get(paths, ignore_missing=False)\<close> returns a mapping whose keys are exactly
  the requested paths: with \<^verbatim>\<open>partial\<close> set (the default) it always returns, and
  without it the keys are the requested paths whenever the saves it makes succeed.
\<close>

theorem get_keys:
  "(\<exists>d. get x paths None partial True s = Inr (d, s)
        \<and> dom d = {p \<in> set paths. fs s p \<noteq> None} \<and> dom d \<subseteq> set paths)
   \<and> (\<exists>d s'. get x paths None True False s = Inr (d, s') \<and> dom d = set paths)
   \<and> (get x paths None False False s = Inr (d, s') \<longrightarrow> dom d = set paths)"
proof (intro conjI impI)
  have u: "concat (batches 999 paths) = paths"
    by (rule batches_concat) simp
  show "\<exists>d. get x paths None partial True s = Inr (d, s)
        \<and> dom d = {p \<in> set paths. fs s p \<noteq> None} \<and> dom d \<subseteq> set paths"
    using get_ignore_missing_dom [of x paths partial s] by blast
  obtain d1 s1 where d1: "get_batches x (batches 999 paths) None True False Map.empty s = Inr (d1, s1)"
    "dom d1 = dom (Map.empty :: string \<rightharpoonup> wrapper) \<union> set (concat (batches 999 paths))"
    using get_batches_partial by blast
  have "dom d1 = set paths" unfolding d1(2) u by simp
  then show "\<exists>d s'. get x paths None True False s = Inr (d, s') \<and> dom d = set paths"
    using d1(1) unfolding get_def by blast
  show "dom d = set paths" if "get x paths None False False s = Inr (d, s')"
  proof -
    have "dom d = dom (Map.empty :: string \<rightharpoonup> wrapper) \<union> set (concat (batches 999 paths))"
      using that unfolding get_def by (rule get_batches_full)
    then show ?thesis unfolding u by simp
  qed
qed

lemma example_get_returns:
  "\<not> isl (get example_ext [''c''] None False False empty_state)"
  by code_simp

theorem get_keys_witness:
  "\<exists>d s'. get example_ext [''c''] None False False empty_state = Inr (d, s')
     \<and> dom d = set [''c'']"
proof -
  obtain d s' where r: "get example_ext [''c''] None False False empty_state = Inr (d, s')"
    using example_get_returns
    by (cases "get example_ext [''c''] None False False empty_state") auto
  then show ?thesis
    using get_keys [of example_ext "[''c'']" False empty_state d s'] by blast
qed

text \<open>
  C6 as stated fails: when every requested path is stored, the keys returned with
  \<^verbatim>\<open>ignore_missing=True\<close> are all the requested paths, which is not a strict subset.
\<close>

theorem get_ignore_missing_not_strict:
  "\<not> isl (get example_ext [''a''] None True True dir_a_state)
   \<and> dom (fst (projr (get example_ext [''a''] None True True dir_a_state))) = set [''a'']
   \<and> \<not> dom (fst (projr (get example_ext [''a''] None True True dir_a_state))) \<subset> set [''a'']"
proof -
  obtain d where d: "get example_ext [''a''] None True True dir_a_state = Inr (d, dir_a_state)"
    "dom d = {p \<in> set [''a'']. fs dir_a_state p \<noteq> None}"
    using get_ignore_missing_dom by blast
  have "dom d = set [''a'']"
    unfolding d(2) by (auto simp: dir_a_state_def empty_state_def)
  then show ?thesis by (simp add: d(1))
qed

section \<open>The node materializer: what a write leaves in the store\<close>

lemma fs_key_inj [simp]: "fs_key p = fs_key q \<longleftrightarrow> p = q"
  by (simp add: fs_key_def)

lemma create_effect:
  assumes "create p pid ty cts s = Inr (e, s')"
  shows "\<exists>r. fs s' = (fs s)(p \<mapsto> r) \<and> row_type r = ty \<and> row_content_types r = cts
           \<and> row_parent_id r = pid \<and> e = entry_of p r
           \<and> cache s' = (cache s)(fs_key p \<mapsto> e)"
  using assms
  by (cases "fs s p") (auto simp: create_def db_replace_def fetch_def Let_def)

lemma create_returns: "\<exists>e s'. create p pid ty cts s = Inr (e, s')"
  by (cases "fs s p") (auto simp: create_def db_replace_def fetch_def Let_def)

lemma update_entry_fs:
  assumes "update_entry p c s = Inr (e, s')"
  shows "fs s' = fs s \<or>
         (\<exists>r. fs s p = Some r \<and> fs s' = (fs s)(p \<mapsto> r\<lparr>row_content_types := row_content_types r OR c\<rparr>))"
  using assms
  by (cases "fs s p")
     (auto simp: update_entry_def db_update_def fetch_def Let_def split: option.splits if_splits)

lemma update_entry_dom: "update_entry p c s = Inr (e, s') \<Longrightarrow> fs s q \<noteq> None \<Longrightarrow> fs s' q \<noteq> None"
  using update_entry_fs [of p c s e s'] by auto

lemma create_dom: "create p pid ty cts s = Inr (e, s') \<Longrightarrow> fs s q \<noteq> None \<Longrightarrow> fs s' q \<noteq> None"
  using create_effect [of p pid ty cts s e s'] by auto

lemma create_missing_dom:
  "create_missing dct w ms n s = Inr (n', s') \<Longrightarrow> fs s q \<noteq> None \<Longrightarrow> fs s' q \<noteq> None"
proof (induction ms arbitrary: n s)
  case Nil
  then show ?case by simp
next
  case (Cons m ms)
  from Cons.prems(1) obtain e s1 where
    c: "create m (node_id n) (w_type w)
          (if m = w_path w \<or> (m = w_parent_path w \<and> w_type w = FILE_TYPE)
           then dct OR w_content_types w else dct) s = Inr (e, s1)"
    and rest: "create_missing dct w ms (Entry e) s1 = Inr (n', s')"
    by (auto simp: Let_def split: sum.splits)
  have "fs s1 q \<noteq> None" using c Cons.prems(2) by (rule create_dom)
  with rest show ?case by (rule Cons.IH)
qed

lemma create_missing_creates:
  "create_missing dct w ms n s = Inr (n', s') \<Longrightarrow> m \<in> set ms \<Longrightarrow> fs s' m \<noteq> None"
proof (induction ms arbitrary: n s)
  case Nil
  then show ?case by simp
next
  case (Cons m0 ms)
  from Cons.prems(1) obtain e s1 where
    c: "create m0 (node_id n) (w_type w)
          (if m0 = w_path w \<or> (m0 = w_parent_path w \<and> w_type w = FILE_TYPE)
           then dct OR w_content_types w else dct) s = Inr (e, s1)"
    and rest: "create_missing dct w ms (Entry e) s1 = Inr (n', s')"
    by (auto simp: Let_def split: sum.splits)
  show ?case
  proof (cases "m = m0")
    case True
    have "fs s1 m \<noteq> None" using create_effect [OF c] True by auto
    with rest show ?thesis by (rule create_missing_dom)
  next
    case False
    then have "m \<in> set ms" using Cons.prems(2) by simp
    with rest show ?thesis by (rule Cons.IH)
  qed
qed


lemma cache_walk_split:
  "cache_walk c ps = (anc, missing) \<Longrightarrow>
     \<exists>pre. ps = pre @ missing \<and> (\<forall>p \<in> set pre. c (fs_key p) \<noteq> None)
           \<and> map Some anc = map (\<lambda>p. c (fs_key p)) pre"
proof (induction ps arbitrary: anc missing)
  case Nil
  then show ?case by simp
next
  case (Cons p ps)
  show ?case
  proof (cases "c (fs_key p)")
    case None
    then have "anc = []" "missing = p # ps" using Cons.prems by simp_all
    then show ?thesis by simp
  next
    case (Some e)
    obtain anc1 missing1 where w: "cache_walk c ps = (anc1, missing1)"
      by (cases "cache_walk c ps") auto
    then have eq: "anc = e # anc1" "missing = missing1"
      using Cons.prems Some by simp_all
    obtain pre where pre: "ps = pre @ missing1" "\<forall>p \<in> set pre. c (fs_key p) \<noteq> None"
      "map Some anc1 = map (\<lambda>p. c (fs_key p)) pre"
      using Cons.IH [OF w] by blast
    have "p # ps = (p # pre) @ missing" using pre(1) eq by simp
    moreover have "\<forall>q \<in> set (p # pre). c (fs_key q) \<noteq> None" using pre(2) Some by simp
    moreover have "map Some anc = map (\<lambda>p. c (fs_key p)) (p # pre)" using pre(3) eq Some by simp
    ultimately show ?thesis by blast
  qed
qed

lemma chain_fold:
  "foldl chain_step (anc, missing, s) es =
     (anc @ es, foldl (\<lambda>m e. remove1 (entry_path e) m) missing es,
      s\<lparr>cache := foldl (\<lambda>c e. c(fs_key (entry_path e) \<mapsto> e)) (cache s) es\<rparr>)"
  by (induction es arbitrary: anc missing s) (simp_all add: chain_step_def)

lemma remove_fold_mem:
  "x \<in> set ms \<Longrightarrow> x \<notin> set (foldl (\<lambda>m e. remove1 (f e) m) ms es) \<Longrightarrow> x \<in> f ` set es"
proof (induction es arbitrary: ms)
  case Nil
  then show ?case by simp
next
  case (Cons e es)
  show ?case
  proof (cases "x \<in> set (remove1 (f e) ms)")
    case True
    then have "x \<in> f ` set es" using Cons.prems(2) by (intro Cons.IH) simp_all
    then show ?thesis by simp
  next
    case False
    then have "x = f e" using Cons.prems(1) by (metis in_set_remove1)
    then show ?thesis by simp
  qed
qed

lemma remove1_subseq: "subseq (remove1 y xs) xs"
  by (induction xs) auto

lemma remove_fold_subseq: "subseq (foldl (\<lambda>m e. remove1 (f e) m) ms es) ms"
proof (induction es arbitrary: ms)
  case Nil
  then show ?case by simp
next
  case (Cons e es)
  have "subseq (foldl (\<lambda>m e. remove1 (f e) m) (remove1 (f e) ms) es) (remove1 (f e) ms)"
    by (rule Cons.IH)
  moreover have "subseq (remove1 (f e) ms) ms" by (rule remove1_subseq)
  ultimately have "subseq (foldl (\<lambda>m e. remove1 (f e) m) (remove1 (f e) ms) es) ms"
    by (rule subseq_order.trans)
  then show ?case by simp
qed

lemma select_in_mem:
  "e \<in> set (select_in tbl ps) \<Longrightarrow>
     entry_path e \<in> set ps \<and> (\<exists>r. tbl (entry_path e) = Some r \<and> e = entry_of (entry_path e) r)"
  by (auto simp: select_in_def List.map_filter_def entry_of_def split: option.splits)

lemma get_chain_facts:
  assumes "get_chain w s = (found, missing, s1)"
  shows "fs s1 = fs s"
    and "subseq missing (ancestors_of (w_path w))"
    and "\<forall>a \<in> set (ancestors_of (w_path w)).
           a \<in> set missing \<or> cache s (fs_key a) \<noteq> None \<or> fs s a \<noteq> None"
proof -
  obtain anc missing0 where cw: "cache_walk (cache s) (ancestors_of (w_path w)) = (anc, missing0)"
    by (cases "cache_walk (cache s) (ancestors_of (w_path w))") auto
  obtain pre where pre: "ancestors_of (w_path w) = pre @ missing0"
    "\<forall>p \<in> set pre. cache s (fs_key p) \<noteq> None"
    using cache_walk_split [OF cw] by blast
  define es where "es = select_in (fs s) missing0"
  have res: "(found, missing, s1) =
      (if missing0 = [] then (anc, missing0, s)
       else (anc @ es, foldl (\<lambda>m e. remove1 (entry_path e) m) missing0 es,
             s\<lparr>cache := foldl (\<lambda>c e. c(fs_key (entry_path e) \<mapsto> e)) (cache s) es\<rparr>))"
    using assms cw by (cases "missing0 = []") (simp_all add: get_chain_def Let_def chain_fold es_def)
  show "fs s1 = fs s" using res by (auto split: if_splits)
  have fold_nil: "foldl (\<lambda>m e. remove1 (entry_path e) m) [] es = []"
    by (induction es) simp_all
  have m: "missing = foldl (\<lambda>m e. remove1 (entry_path e) m) missing0 es"
    using res fold_nil by (auto split: if_splits)
  have sub0: "subseq missing missing0" unfolding m by (rule remove_fold_subseq)
  have "subseq missing0 (pre @ missing0)" by (simp add: subseq_drop_many)
  then show "subseq missing (ancestors_of (w_path w))"
    using sub0 pre(1) by (metis subseq_order.trans)
  show "\<forall>a \<in> set (ancestors_of (w_path w)).
           a \<in> set missing \<or> cache s (fs_key a) \<noteq> None \<or> fs s a \<noteq> None"
  proof
    fix a assume "a \<in> set (ancestors_of (w_path w))"
    then consider "a \<in> set pre" | "a \<in> set missing0" using pre(1) by auto
    then show "a \<in> set missing \<or> cache s (fs_key a) \<noteq> None \<or> fs s a \<noteq> None"
    proof cases
      case 1
      then show ?thesis using pre(2) by blast
    next
      case 2
      show ?thesis
      proof (cases "a \<in> set missing")
        case True
        then show ?thesis by simp
      next
        case False
        then have "a \<in> entry_path ` set es"
          using 2 unfolding m by (intro remove_fold_mem)
        then obtain e where "e \<in> set es" "a = entry_path e" by blast
        then have "fs s a \<noteq> None" using select_in_mem [of e "fs s" missing0] by (auto simp: es_def)
        then show ?thesis by simp
      qed
    qed
  qed
qed

lemma write_fs_cases:
  assumes "write_fs dct w s = Inr (n, s')"
  obtains found missing s1 last1 s2 s3 where
    "get_chain w s = (found, missing, s1)"
    "create_missing dct w missing (if found \<noteq> [] then Entry (last found) else DEFAULT_ROOT) s1
       = Inr (last1, s2)"
    "if w_parent_path w \<notin> set missing \<and> w_type w = FILE_TYPE
     then \<exists>e. update_entry (w_parent_path w) (w_content_types w) s2 = Inr (e, s3)
     else s3 = s2"
    "if w_path w \<notin> set missing
     then \<exists>e. update_entry (w_path w) (w_content_types w) s3 = Inr (e, s') \<and> n = Entry e
     else n = last1 \<and> s' = s3"
proof -
  obtain found missing s1 where gc: "get_chain w s = (found, missing, s1)"
    by (cases "get_chain w s") auto
  let ?last0 = "if found \<noteq> [] then Entry (last found) else DEFAULT_ROOT"
  obtain last1 s2 where cm: "create_missing dct w missing ?last0 s1 = Inr (last1, s2)"
    using assms gc by (cases "create_missing dct w missing ?last0 s1") (auto simp: write_fs_def Let_def)
  let ?par = "if w_parent_path w \<notin> set missing \<and> w_type w = FILE_TYPE
              then map_sum id snd (update_entry (w_parent_path w) (w_content_types w) s2)
              else Inr s2"
  obtain s3 where par: "?par = Inr s3"
    using assms gc cm by (cases ?par) (auto simp: write_fs_def Let_def)
  have fin: "(if w_path w \<notin> set missing
              then map_sum id (\<lambda>(entry, s4). (Entry entry, s4))
                     (update_entry (w_path w) (w_content_types w) s3)
              else Inr (last1, s3)) = Inr (n, s')"
    using assms gc cm par by (simp add: write_fs_def Let_def)
  have p3: "if w_parent_path w \<notin> set missing \<and> w_type w = FILE_TYPE
     then \<exists>e. update_entry (w_parent_path w) (w_content_types w) s2 = Inr (e, s3)
     else s3 = s2"
    using par
    by (cases "update_entry (w_parent_path w) (w_content_types w) s2") (auto split: if_splits)
  have p4: "if w_path w \<notin> set missing
     then \<exists>e. update_entry (w_path w) (w_content_types w) s3 = Inr (e, s') \<and> n = Entry e
     else n = last1 \<and> s' = s3"
    using fin
    by (cases "update_entry (w_path w) (w_content_types w) s3") (auto split: if_splits)
  show ?thesis using that [OF gc cm p3 p4] .
qed


text \<open>
  When every ancestor of the path that the cache holds has a row in the store, a
  \<^verbatim>\<open>write()\<close> that returns leaves a row for every ancestor of the path, from the root to
  the path itself.
\<close>

lemma write_keeps_ancestors:
  assumes "\<forall>q \<in> set (ancestors_of (data_path data)). cache s (fs_key q) \<noteq> None \<longrightarrow> fs s q \<noteq> None"
    and "write_fs dct (FSWriter data) s = Inr (n, s')"
  shows "\<forall>a \<in> set (ancestors_of (data_path data)). fs s' a \<noteq> None"
proof
  fix a assume a: "a \<in> set (ancestors_of (data_path data))"
  let ?w = "FSWriter data"
  have wp: "w_path ?w = data_path data" by (simp add: FSWriter_def)
  from assms(2) obtain found missing s1 last1 s2 s3 where
    gc: "get_chain ?w s = (found, missing, s1)" and
    cm: "create_missing dct ?w missing (if found \<noteq> [] then Entry (last found) else DEFAULT_ROOT) s1
       = Inr (last1, s2)" and
    par: "if w_parent_path ?w \<notin> set missing \<and> w_type ?w = FILE_TYPE
     then \<exists>e. update_entry (w_parent_path ?w) (w_content_types ?w) s2 = Inr (e, s3)
     else s3 = s2" and
    fin: "if w_path ?w \<notin> set missing
     then \<exists>e. update_entry (w_path ?w) (w_content_types ?w) s3 = Inr (e, s') \<and> n = Entry e
     else n = last1 \<and> s' = s3"
    by (rule write_fs_cases)
  have "a \<in> set missing \<or> cache s (fs_key a) \<noteq> None \<or> fs s a \<noteq> None"
    using get_chain_facts(3) [OF gc] a wp by simp
  then have "a \<in> set missing \<or> fs s1 a \<noteq> None"
    using assms(1) a get_chain_facts(1) [OF gc] by auto
  then have "fs s2 a \<noteq> None"
    using create_missing_creates [OF cm] create_missing_dom [OF cm] by blast
  then have "fs s3 a \<noteq> None"
    using par update_entry_dom by (auto split: if_splits)
  then show "fs s' a \<noteq> None"
    using fin update_entry_dom by (auto split: if_splits)
qed

lemma dir_ab_write_returns: "\<not> isl (write_fs 1 (FSWriter dir_ab_data) empty_state)"
  by code_simp

lemma dir_ab_ancestors: "ancestors_of (data_path dir_ab_data) = [[], ''a'', ''a/b'']"
  by code_simp

lemma write_keeps_ancestors_example:
  "ancestors_of (data_path dir_ab_data) = [[], ''a'', ''a/b'']
   \<and> cache empty_state (fs_key []) = None
   \<and> cache empty_state (fs_key ''a'') = None
   \<and> cache empty_state (fs_key ''a/b'') = None
   \<and> (\<exists>n s'. write_fs 1 (FSWriter dir_ab_data) empty_state = Inr (n, s')
        \<and> fs s' [] \<noteq> None \<and> fs s' ''a'' \<noteq> None \<and> fs s' ''a/b'' \<noteq> None)"
proof -
  have c: "cache empty_state k = None" for k
    by (simp add: empty_state_def)
  have h: "\<forall>q \<in> set (ancestors_of (data_path dir_ab_data)).
       cache empty_state (fs_key q) \<noteq> None \<longrightarrow> fs empty_state q \<noteq> None"
    by (simp add: c)
  obtain n s' where r: "write_fs 1 (FSWriter dir_ab_data) empty_state = Inr (n, s')"
    using dir_ab_write_returns
    by (cases "write_fs 1 (FSWriter dir_ab_data) empty_state") auto
  have "\<forall>a \<in> set (ancestors_of (data_path dir_ab_data)). fs s' a \<noteq> None"
    using h r by (rule write_keeps_ancestors)
  then have "fs s' [] \<noteq> None \<and> fs s' ''a'' \<noteq> None \<and> fs s' ''a/b'' \<noteq> None"
    by (simp add: dir_ab_ancestors)
  then show ?thesis
    using r c dir_ab_ancestors by blast
qed

text \<open>
  C1. After a save every ancestor of the path is to have a row in the store, as the
  docstring of \<^verbatim>\<open>FSWriter\<close> promises. The code breaks this in a state it reaches
  itself: after saving \<^verbatim>\<open>a/b\<close> and removing \<^verbatim>\<open>a\<close>, which leaves the cache as it was,
  saving \<^verbatim>\<open>a/b\<close> again finds the whole chain in the cache, creates nothing and returns,
  and the ancestor \<^verbatim>\<open>a\<close> has no row.
\<close>

theorem write_after_remove_orphan:
  "\<not> isl (write_fs 1 (FSWriter dir_ab_data) empty_state)
   \<and> \<not> isl (write_fs 1 (FSWriter dir_ab_data) stale_state)
   \<and> ''a'' \<in> set (ancestors_of (data_path dir_ab_data))
   \<and> fs (snd (projr (write_fs 1 (FSWriter dir_ab_data) stale_state))) ''a'' = None"
  by code_simp

section \<open>The node materializer: what a write returns\<close>

lemma subseq_last:
  "subseq ys xs \<Longrightarrow> x \<in> set ys \<Longrightarrow> x \<notin> set (butlast xs) \<Longrightarrow> last ys = x"
proof (induction ys xs rule: list_emb.induct)
  case (list_emb_Nil ys)
  then show ?case by simp
next
  case (list_emb_Cons xs ys y)
  show ?case
  proof (cases "ys = []")
    case True
    then have "xs = []" using list_emb_Cons.hyps by simp
    then show ?thesis using list_emb_Cons.prems by simp
  next
    case False
    then have "x \<notin> set (butlast ys)" using list_emb_Cons.prems(2) by simp
    then show ?thesis using list_emb_Cons.IH list_emb_Cons.prems(1) by simp
  qed
next
  case (list_emb_Cons2 a b xs ys)
  show ?case
  proof (cases "ys = []")
    case True
    then have "xs = []" using list_emb_Cons2.hyps by simp
    then show ?thesis using list_emb_Cons2.prems list_emb_Cons2.hyps by simp
  next
    case False
    then have nb: "x \<noteq> b" "x \<notin> set (butlast ys)" using list_emb_Cons2.prems(2) by simp_all
    then have "x \<in> set xs" using list_emb_Cons2.prems(1) list_emb_Cons2.hyps(1) by simp
    then have "last xs = x" "xs \<noteq> []" using list_emb_Cons2.IH nb(2) by auto
    then show ?thesis by simp
  qed
qed

lemma create_missing_last:
  "create_missing dct w ms n s = Inr (n', s') \<Longrightarrow> ms \<noteq> [] \<Longrightarrow>
     \<exists>e. n' = Entry e \<and> entry_path e = last ms"
proof (induction ms arbitrary: n s)
  case Nil
  then show ?case by simp
next
  case (Cons m ms)
  from Cons.prems(1) obtain e s1 where
    c: "create m (node_id n) (w_type w)
          (if m = w_path w \<or> (m = w_parent_path w \<and> w_type w = FILE_TYPE)
           then dct OR w_content_types w else dct) s = Inr (e, s1)"
    and rest: "create_missing dct w ms (Entry e) s1 = Inr (n', s')"
    by (auto simp: Let_def split: sum.splits)
  show ?case
  proof (cases "ms = []")
    case True
    then have "n' = Entry e" using rest by simp
    moreover have "entry_path e = m" using create_effect [OF c] by (auto simp: entry_of_def)
    ultimately show ?thesis using True by simp
  next
    case False
    then show ?thesis using Cons.IH [OF rest] by simp
  qed
qed

lemma cache_fold_names:
  "(case c (fs_key q) of None \<Rightarrow> True | Some e \<Rightarrow> entry_path e = q) \<Longrightarrow>
   (case foldl (\<lambda>c e. c(fs_key (entry_path e) \<mapsto> e)) c es (fs_key q) of
      None \<Rightarrow> True | Some e \<Rightarrow> entry_path e = q)"
proof (induction es arbitrary: c)
  case Nil
  then show ?case by simp
next
  case (Cons e0 es)
  have "case (c(fs_key (entry_path e0) \<mapsto> e0)) (fs_key q) of
          None \<Rightarrow> True | Some e \<Rightarrow> entry_path e = q"
    using Cons.prems by (cases "entry_path e0 = q") simp_all
  then have "case foldl (\<lambda>c e. c(fs_key (entry_path e) \<mapsto> e))
                 (c(fs_key (entry_path e0) \<mapsto> e0)) es (fs_key q) of
          None \<Rightarrow> True | Some e \<Rightarrow> entry_path e = q"
    by (rule Cons.IH)
  then show ?case by (simp only: foldl.simps)
qed

lemma get_chain_cache:
  assumes "get_chain w s = (found, missing, s1)"
  shows "\<exists>es. (\<forall>e \<in> set es. \<exists>r. fs s (entry_path e) = Some r \<and> e = entry_of (entry_path e) r)
           \<and> cache s1 = foldl (\<lambda>c e. c(fs_key (entry_path e) \<mapsto> e)) (cache s) es"
proof -
  obtain anc missing0 where cw: "cache_walk (cache s) (ancestors_of (w_path w)) = (anc, missing0)"
    by (cases "cache_walk (cache s) (ancestors_of (w_path w))") auto
  show ?thesis
  proof (cases "missing0 = []")
    case True
    then have "cache s1 = foldl (\<lambda>c e. c(fs_key (entry_path e) \<mapsto> e)) (cache s) []"
      using assms cw by (simp add: get_chain_def)
    then show ?thesis by (intro exI [of _ "[]"]) simp
  next
    case False
    then have "cache s1 =
        foldl (\<lambda>c e. c(fs_key (entry_path e) \<mapsto> e)) (cache s) (select_in (fs s) missing0)"
      using assms cw by (auto simp: get_chain_def chain_fold)
    moreover have "\<forall>e \<in> set (select_in (fs s) missing0).
        \<exists>r. fs s (entry_path e) = Some r \<and> e = entry_of (entry_path e) r"
      using select_in_mem by blast
    ultimately show ?thesis by blast
  qed
qed

lemma get_chain_names:
  assumes "get_chain w s = (found, missing, s1)" "cache_names q s"
  shows "cache_names q s1"
proof -
  obtain es where "cache s1 = foldl (\<lambda>c e. c(fs_key (entry_path e) \<mapsto> e)) (cache s) es"
    using get_chain_cache [OF assms(1)] by blast
  then show ?thesis
    using cache_fold_names [where c = "cache s" and q = q and es = es] assms(2) by (simp add: cache_names_def)
qed

lemma create_names:
  assumes "create p pid ty cts s = Inr (e, s')" "cache_names q s"
  shows "cache_names q s'"
proof -
  obtain r where "e = entry_of p r" "cache s' = (cache s)(fs_key p \<mapsto> e)"
    using create_effect [OF assms(1)] by blast
  then show ?thesis
    using assms(2) by (cases "q = p") (simp_all add: cache_names_def entry_of_def)
qed

lemma create_missing_names:
  "create_missing dct w ms n s = Inr (n', s') \<Longrightarrow> cache_names q s \<Longrightarrow> cache_names q s'"
proof (induction ms arbitrary: n s)
  case Nil
  then show ?case by simp
next
  case (Cons m ms)
  from Cons.prems(1) obtain e s1 where
    c: "create m (node_id n) (w_type w)
          (if m = w_path w \<or> (m = w_parent_path w \<and> w_type w = FILE_TYPE)
           then dct OR w_content_types w else dct) s = Inr (e, s1)"
    and rest: "create_missing dct w ms (Entry e) s1 = Inr (n', s')"
    by (auto simp: Let_def split: sum.splits)
  have "cache_names q s1" using c Cons.prems(2) by (rule create_names)
  with rest show ?case by (rule Cons.IH)
qed

lemma update_entry_cache:
  assumes "update_entry p c s = Inr (e, s')"
  shows "(cache s' = cache s \<or> cache s' = (cache s)(fs_key p \<mapsto> e))
         \<and> ((\<exists>e0. cache s (fs_key p) = Some e0 \<and> entry_path e = entry_path e0)
              \<or> (\<exists>r. e = entry_of p r))"
proof (cases "cache s (fs_key p)")
  case None
  then show ?thesis
    using assms
    by (cases "fs s p") (auto simp: update_entry_def db_update_def fetch_def Let_def)
next
  case (Some e0)
  then show ?thesis
    using assms
    by (cases "entry_content_types e0 AND c = c")
       (auto simp: update_entry_def db_update_def Let_def)
qed

lemma update_entry_path:
  assumes "update_entry p c s = Inr (e, s')" "cache_names p s"
  shows "entry_path e = p"
proof -
  consider e0 where "cache s (fs_key p) = Some e0" "entry_path e = entry_path e0"
    | r where "e = entry_of p r"
    using update_entry_cache [OF assms(1)] by blast
  then show ?thesis
  proof cases
    case 1
    then show ?thesis using assms(2) by (simp add: cache_names_def)
  next
    case 2
    then show ?thesis by (simp add: entry_of_def)
  qed
qed

lemma update_entry_names:
  assumes "update_entry p c s = Inr (e, s')" "cache_names q s"
  shows "cache_names q s'"
proof -
  have "cache s' = cache s \<or> cache s' = (cache s)(fs_key p \<mapsto> e)"
    using update_entry_cache [OF assms(1)] by blast
  then show ?thesis
  proof
    assume "cache s' = cache s"
    then show ?thesis using assms(2) by (simp add: cache_names_def)
  next
    assume upd: "cache s' = (cache s)(fs_key p \<mapsto> e)"
    show ?thesis
    proof (cases "q = p")
      case True
      then have "cache_names p s" using assms(2) by simp
      with assms(1) have "entry_path e = p" by (rule update_entry_path)
      then show ?thesis using upd True by (simp add: cache_names_def)
    next
      case False
      then show ?thesis using upd assms(2) by (simp add: cache_names_def)
    qed
  qed
qed

lemma cache_fold_some:
  "c k \<noteq> None \<or> k \<in> (\<lambda>e. fs_key (entry_path e)) ` set es \<Longrightarrow>
     foldl (\<lambda>c e. c(fs_key (entry_path e) \<mapsto> e)) c es k \<noteq> None"
proof (induction es arbitrary: c)
  case Nil
  then show ?case by simp
next
  case (Cons e0 es)
  have "(c(fs_key (entry_path e0) \<mapsto> e0)) k \<noteq> None
        \<or> k \<in> (\<lambda>e. fs_key (entry_path e)) ` set es"
    using Cons.prems by auto
  then have "foldl (\<lambda>c e. c(fs_key (entry_path e) \<mapsto> e)) (c(fs_key (entry_path e0) \<mapsto> e0)) es k
             \<noteq> None"
    by (rule Cons.IH)
  then show ?case by (simp del: fun_upd_apply)
qed

lemma get_chain_cached:
  assumes "get_chain w s = (found, missing, s1)"
    and "a \<in> set (ancestors_of (w_path w))" "a \<notin> set missing"
  shows "cache s1 (fs_key a) \<noteq> None"
proof -
  obtain anc missing0 where cw: "cache_walk (cache s) (ancestors_of (w_path w)) = (anc, missing0)"
    by (cases "cache_walk (cache s) (ancestors_of (w_path w))") auto
  obtain pre where pre: "ancestors_of (w_path w) = pre @ missing0"
    "\<forall>p \<in> set pre. cache s (fs_key p) \<noteq> None"
    using cache_walk_split [OF cw] by blast
  define es where "es = select_in (fs s) missing0"
  show ?thesis
  proof (cases "missing0 = []")
    case True
    then have "s1 = s" "a \<in> set pre" using assms cw pre(1) by (simp_all add: get_chain_def)
    then show ?thesis using pre(2) by simp
  next
    case False
    then have res: "missing = foldl (\<lambda>m e. remove1 (entry_path e) m) missing0 es"
      "cache s1 = foldl (\<lambda>c e. c(fs_key (entry_path e) \<mapsto> e)) (cache s) es"
      using assms(1) cw by (auto simp: get_chain_def chain_fold es_def)
    have "cache s (fs_key a) \<noteq> None \<or> fs_key a \<in> (\<lambda>e. fs_key (entry_path e)) ` set es"
    proof (cases "a \<in> set pre")
      case True
      then show ?thesis using pre(2) by simp
    next
      case False
      then have "a \<in> set missing0" using assms(2) pre(1) by simp
      then have "a \<in> entry_path ` set es"
        using assms(3) unfolding res(1) by (intro remove_fold_mem)
      then show ?thesis by blast
    qed
    then show ?thesis unfolding res(2) by (rule cache_fold_some)
  qed
qed

lemma create_missing_returns: "\<exists>n' s'. create_missing dct w ms n s = Inr (n', s')"
proof (induction ms arbitrary: n s)
  case Nil
  then show ?case by simp
next
  case (Cons m ms)
  let ?cts = "if m = w_path w \<or> (m = w_parent_path w \<and> w_type w = FILE_TYPE)
              then dct OR w_content_types w else dct"
  obtain e s1 where c: "create m (node_id n) (w_type w) ?cts s = Inr (e, s1)"
    using create_returns by blast
  obtain n' s' where "create_missing dct w ms (Entry e) s1 = Inr (n', s')"
    using Cons.IH by blast
  then show ?case using c by (simp add: Let_def)
qed

lemma create_missing_cache_mono:
  "create_missing dct w ms n s = Inr (n', s') \<Longrightarrow> cache s k \<noteq> None \<Longrightarrow> cache s' k \<noteq> None"
proof (induction ms arbitrary: n s)
  case Nil
  then show ?case by simp
next
  case (Cons m ms)
  from Cons.prems(1) obtain e s1 where
    c: "create m (node_id n) (w_type w)
          (if m = w_path w \<or> (m = w_parent_path w \<and> w_type w = FILE_TYPE)
           then dct OR w_content_types w else dct) s = Inr (e, s1)"
    and rest: "create_missing dct w ms (Entry e) s1 = Inr (n', s')"
    by (auto simp: Let_def split: sum.splits)
  have "cache s1 k \<noteq> None" using create_effect [OF c] Cons.prems(2) by auto
  with rest show ?case by (rule Cons.IH)
qed

lemma update_entry_hit:
  "cache s (fs_key p) \<noteq> None \<Longrightarrow> \<exists>e s'. update_entry p c s = Inr (e, s')"
  by (auto simp: update_entry_def Let_def)

lemma update_entry_cache_mono:
  "update_entry p c s = Inr (e, s') \<Longrightarrow> cache s k \<noteq> None \<Longrightarrow> cache s' k \<noteq> None"
  using update_entry_cache [of p c s e s'] by auto

lemma update_entry_other:
  assumes "update_entry q c s = Inr (e, s')" "q \<noteq> p"
  shows "fs s' p = fs s p \<and> cache s' (fs_key p) = cache s (fs_key p)"
  using update_entry_fs [OF assms(1)] update_entry_cache [OF assms(1)] assms(2) by auto

lemma write_fs_returns:
  assumes "w_path w \<in> set (ancestors_of (w_path w))"
    and "w_type w = FILE_TYPE \<longrightarrow> w_parent_path w \<in> set (ancestors_of (w_path w))"
  shows "\<exists>n s'. write_fs dct w s = Inr (n, s')"
proof -
  obtain found missing s1 where gc: "get_chain w s = (found, missing, s1)"
    by (cases "get_chain w s") auto
  let ?last0 = "if found \<noteq> [] then Entry (last found) else DEFAULT_ROOT"
  obtain last1 s2 where cm: "create_missing dct w missing ?last0 s1 = Inr (last1, s2)"
    using create_missing_returns by blast
  have mono12: "cache s1 k \<noteq> None \<Longrightarrow> cache s2 k \<noteq> None" for k
    using cm by (rule create_missing_cache_mono)
  let ?par = "if w_parent_path w \<notin> set missing \<and> w_type w = FILE_TYPE
              then map_sum id snd (update_entry (w_parent_path w) (w_content_types w) s2)
              else Inr s2"
  obtain s3 where par: "?par = Inr s3" and mono23: "\<forall>k. cache s2 k \<noteq> None \<longrightarrow> cache s3 k \<noteq> None"
  proof (cases "w_parent_path w \<notin> set missing \<and> w_type w = FILE_TYPE")
    case True
    then have "cache s1 (fs_key (w_parent_path w)) \<noteq> None"
      using get_chain_cached [OF gc] assms(2) by blast
    then have "cache s2 (fs_key (w_parent_path w)) \<noteq> None" by (rule mono12)
    then obtain e s3 where u: "update_entry (w_parent_path w) (w_content_types w) s2 = Inr (e, s3)"
      using update_entry_hit by blast
    have "?par = Inr s3" using True u by simp
    moreover have "\<forall>k. cache s2 k \<noteq> None \<longrightarrow> cache s3 k \<noteq> None"
      using update_entry_cache_mono [OF u] by blast
    ultimately show ?thesis using that by blast
  next
    case False
    then have "?par = Inr s2" by auto
    then show ?thesis using that by blast
  qed
  show ?thesis
  proof (cases "w_path w \<in> set missing")
    case True
    then show ?thesis using gc cm par by (simp add: write_fs_def Let_def)
  next
    case False
    then have "cache s1 (fs_key (w_path w)) \<noteq> None"
      using get_chain_cached [OF gc assms(1)] by blast
    then have "cache s2 (fs_key (w_path w)) \<noteq> None" by (rule mono12)
    then have "cache s3 (fs_key (w_path w)) \<noteq> None" using mono23 by blast
    then obtain e s' where "update_entry (w_path w) (w_content_types w) s3 = Inr (e, s')"
      using update_entry_hit by blast
    then show ?thesis using False gc cm par by (simp add: write_fs_def Let_def)
  qed
qed

lemma create_missing_last_entry:
  "create_missing dct w ms n s = Inr (n', s') \<Longrightarrow> ms \<noteq> [] \<Longrightarrow>
     \<exists>e r. n' = Entry e \<and> fs s' (last ms) = Some r \<and> e = entry_of (last ms) r
          \<and> cache s' (fs_key (last ms)) = Some e"
proof (induction ms arbitrary: n s)
  case Nil
  then show ?case by simp
next
  case (Cons m ms)
  from Cons.prems(1) obtain e s1 where
    c: "create m (node_id n) (w_type w)
          (if m = w_path w \<or> (m = w_parent_path w \<and> w_type w = FILE_TYPE)
           then dct OR w_content_types w else dct) s = Inr (e, s1)"
    and rest: "create_missing dct w ms (Entry e) s1 = Inr (n', s')"
    by (auto simp: Let_def split: sum.splits)
  show ?case
  proof (cases "ms = []")
    case True
    then have "n' = Entry e" "s' = s1" using rest by simp_all
    moreover obtain r where "fs s1 = (fs s)(m \<mapsto> r)" "e = entry_of m r"
      "cache s1 = (cache s)(fs_key m \<mapsto> e)"
      using create_effect [OF c] by blast
    ultimately show ?thesis using True by simp
  next
    case False
    then show ?thesis using Cons.IH [OF rest] by simp
  qed
qed

lemma cache_exact_names: "cache_exact q s \<Longrightarrow> cache_names q s"
  by (auto simp: cache_exact_def cache_names_def entry_of_def split: option.splits)

lemma cache_fold_exact:
  assumes "case c (fs_key q) of None \<Rightarrow> True
           | Some e \<Rightarrow> (case tbl q of None \<Rightarrow> False | Some r \<Rightarrow> e = entry_of q r)"
    and "\<forall>e \<in> set es. \<exists>r. tbl (entry_path e) = Some r \<and> e = entry_of (entry_path e) r"
  shows "case foldl (\<lambda>c e. c(fs_key (entry_path e) \<mapsto> e)) c es (fs_key q) of None \<Rightarrow> True
         | Some e \<Rightarrow> (case tbl q of None \<Rightarrow> False | Some r \<Rightarrow> e = entry_of q r)"
  using assms
proof (induction es arbitrary: c)
  case Nil
  then show ?case by simp
next
  case (Cons e0 es)
  obtain r0 where r0: "tbl (entry_path e0) = Some r0" "e0 = entry_of (entry_path e0) r0"
    using Cons.prems(2) by auto
  have "case (c(fs_key (entry_path e0) \<mapsto> e0)) (fs_key q) of None \<Rightarrow> True
        | Some e \<Rightarrow> (case tbl q of None \<Rightarrow> False | Some r \<Rightarrow> e = entry_of q r)"
  proof (cases "entry_path e0 = q")
    case True
    then show ?thesis using r0 by simp
  next
    case False
    then show ?thesis using Cons.prems(1) by simp
  qed
  moreover have "\<forall>e \<in> set es. \<exists>r. tbl (entry_path e) = Some r \<and> e = entry_of (entry_path e) r"
    using Cons.prems(2) by simp
  ultimately have "case foldl (\<lambda>c e. c(fs_key (entry_path e) \<mapsto> e))
                 (c(fs_key (entry_path e0) \<mapsto> e0)) es (fs_key q) of None \<Rightarrow> True
         | Some e \<Rightarrow> (case tbl q of None \<Rightarrow> False | Some r \<Rightarrow> e = entry_of q r)"
    by (rule Cons.IH)
  then show ?case by (simp only: foldl.simps)
qed

lemma get_chain_exact:
  assumes "get_chain w s = (found, missing, s1)" "cache_exact q s"
  shows "cache_exact q s1"
proof -
  obtain es where es:
    "\<forall>e \<in> set es. \<exists>r. fs s (entry_path e) = Some r \<and> e = entry_of (entry_path e) r"
    "cache s1 = foldl (\<lambda>c e. c(fs_key (entry_path e) \<mapsto> e)) (cache s) es"
    using get_chain_cache [OF assms(1)] by blast
  have f: "fs s1 = fs s" using assms(1) by (rule get_chain_facts(1))
  have "case cache s (fs_key q) of None \<Rightarrow> True
        | Some e \<Rightarrow> (case fs s q of None \<Rightarrow> False | Some r \<Rightarrow> e = entry_of q r)"
    using assms(2) by (simp add: cache_exact_def)
  then have "case foldl (\<lambda>c e. c(fs_key (entry_path e) \<mapsto> e)) (cache s) es (fs_key q) of
               None \<Rightarrow> True
             | Some e \<Rightarrow> (case fs s q of None \<Rightarrow> False | Some r \<Rightarrow> e = entry_of q r)"
    using es(1) by (rule cache_fold_exact)
  then show ?thesis unfolding cache_exact_def es(2) f .
qed

lemma create_exact:
  assumes "create p pid ty cts s = Inr (e, s')" "cache_exact q s"
  shows "cache_exact q s'"
proof -
  obtain r where r: "fs s' = (fs s)(p \<mapsto> r)" "e = entry_of p r"
    "cache s' = (cache s)(fs_key p \<mapsto> e)"
    using create_effect [OF assms(1)] by blast
  show ?thesis
  proof (cases "q = p")
    case True
    then show ?thesis using r by (simp add: cache_exact_def)
  next
    case False
    then show ?thesis using r assms(2) by (auto simp: cache_exact_def split: option.splits)
  qed
qed

lemma create_missing_exact:
  "create_missing dct w ms n s = Inr (n', s') \<Longrightarrow> cache_exact q s \<Longrightarrow> cache_exact q s'"
proof (induction ms arbitrary: n s)
  case Nil
  then show ?case by simp
next
  case (Cons m ms)
  from Cons.prems(1) obtain e s1 where
    c: "create m (node_id n) (w_type w)
          (if m = w_path w \<or> (m = w_parent_path w \<and> w_type w = FILE_TYPE)
           then dct OR w_content_types w else dct) s = Inr (e, s1)"
    and rest: "create_missing dct w ms (Entry e) s1 = Inr (n', s')"
    by (auto simp: Let_def split: sum.splits)
  have "cache_exact q s1" using c Cons.prems(2) by (rule create_exact)
  with rest show ?case by (rule Cons.IH)
qed

lemma update_entry_exact_self:
  assumes "update_entry p c s = Inr (e, s')" "cache_exact p s"
  shows "\<exists>r. fs s' p = Some r \<and> e = entry_of p r"
proof (cases "cache s (fs_key p)")
  case None
  then show ?thesis
    using assms(1)
    by (cases "fs s p") (auto simp: update_entry_def db_update_def fetch_def Let_def)
next
  case (Some e0)
  then obtain r where r: "fs s p = Some r" "e0 = entry_of p r"
    using assms(2) by (auto simp: cache_exact_def split: option.splits)
  show ?thesis
  proof (cases "entry_content_types e0 AND c = c")
    case True
    then show ?thesis using assms(1) Some r by (simp add: update_entry_def)
  next
    case False
    then show ?thesis
      using assms(1) Some r
      by (auto simp: update_entry_def db_update_def Let_def entry_of_def)
  qed
qed

lemma update_entry_exact:
  assumes "update_entry p c s = Inr (e, s')" "cache_exact q s"
  shows "cache_exact q s'"
proof (cases "q = p")
  case True
  then obtain r where "fs s' p = Some r" "e = entry_of p r"
    using update_entry_exact_self [OF assms(1)] assms(2) by blast
  moreover have "cache s' (fs_key p) = Some e"
    using update_entry_cached [OF assms(1)] by simp
  ultimately show ?thesis using True by (simp add: cache_exact_def)
next
  case False
  then have "fs s' q = fs s q \<and> cache s' (fs_key q) = cache s (fs_key q)"
    using update_entry_other [OF assms(1), of q] by blast
  then show ?thesis using assms(2) by (auto simp: cache_exact_def split: option.splits)
qed

text \<open>
  C10. A path is in normal form here when it occurs in its own ancestor chain, of which
  it is then the last entry. For a target in normal form, whose parent path is in the
  chain as well when the target is a file, \<^verbatim>\<open>write()\<close> returns, whatever the store and
  the cache hold. Whenever \<^verbatim>\<open>write()\<close> returns, it returns an fs entry (never
  \<^verbatim>\<open>DEFAULT_ROOT\<close>), and this entry is the one the cache then holds under the key of the
  target path, whether the target was created by this write, found in the cache or
  found only in the store. Its path is the target path when the cached entry of the
  target, if there was one, carried that path, as every entry the code caches does; and
  it is the entry made from the row of the target in the store when the cached entry of
  the target, if there was one, was the entry of its row.
\<close>

theorem write_returns_target:
  "(data_path data \<in> set (ancestors_of (data_path data))
      \<and> (data_type data = FILE_TYPE \<longrightarrow>
            dirname (data_path data) \<in> set (ancestors_of (data_path data)))
     \<longrightarrow> (\<exists>n s'. write_fs dct (FSWriter data) s = Inr (n, s')))
   \<and> (\<forall>n s'. write_fs dct (FSWriter data) s = Inr (n, s') \<longrightarrow>
         (\<exists>e. n = Entry e
            \<and> cache s' (fs_key (data_path data)) = Some e
            \<and> (cache_names (data_path data) s \<longrightarrow> entry_path e = data_path data)
            \<and> (cache_exact (data_path data) s \<longrightarrow>
                 (\<exists>r. fs s' (data_path data) = Some r \<and> e = entry_of (data_path data) r))))"
proof (intro conjI impI allI)
  let ?w = "FSWriter data"
  assume "data_path data \<in> set (ancestors_of (data_path data))
      \<and> (data_type data = FILE_TYPE \<longrightarrow>
            dirname (data_path data) \<in> set (ancestors_of (data_path data)))"
  then have "w_path ?w \<in> set (ancestors_of (w_path ?w))"
    "w_type ?w = FILE_TYPE \<longrightarrow> w_parent_path ?w \<in> set (ancestors_of (w_path ?w))"
    by (simp_all add: FSWriter_def)
  then show "\<exists>n s'. write_fs dct ?w s = Inr (n, s')" by (rule write_fs_returns)
next
  fix n s'
  let ?w = "FSWriter data"
  let ?p = "data_path data"
  assume ret: "write_fs dct ?w s = Inr (n, s')"
  have wp: "w_path ?w = ?p" by (simp add: FSWriter_def)
  from ret obtain found missing s1 last1 s2 s3 where
    gc: "get_chain ?w s = (found, missing, s1)" and
    cm: "create_missing dct ?w missing (if found \<noteq> [] then Entry (last found) else DEFAULT_ROOT) s1
       = Inr (last1, s2)" and
    par: "if w_parent_path ?w \<notin> set missing \<and> w_type ?w = FILE_TYPE
     then \<exists>e. update_entry (w_parent_path ?w) (w_content_types ?w) s2 = Inr (e, s3)
     else s3 = s2" and
    fin: "if w_path ?w \<notin> set missing
     then \<exists>e. update_entry (w_path ?w) (w_content_types ?w) s3 = Inr (e, s') \<and> n = Entry e
     else n = last1 \<and> s' = s3"
    by (rule write_fs_cases)
  show "\<exists>e. n = Entry e
            \<and> cache s' (fs_key ?p) = Some e
            \<and> (cache_names ?p s \<longrightarrow> entry_path e = ?p)
            \<and> (cache_exact ?p s \<longrightarrow> (\<exists>r. fs s' ?p = Some r \<and> e = entry_of ?p r))"
  proof (cases "?p \<in> set missing")
    case True
    then have ne: "missing \<noteq> []" by auto
    have n: "n = last1" "s' = s3" using fin True wp by simp_all
    have "subseq missing (ancestors_of ?p)"
      using get_chain_facts(2) [OF gc] wp by simp
    moreover have "?p \<notin> set (butlast (ancestors_of ?p))"
      using ancestors_butlast_ne by blast
    ultimately have lm: "last missing = ?p"
      using True by (intro subseq_last)
    obtain e r where e: "last1 = Entry e" "fs s2 ?p = Some r" "e = entry_of ?p r"
      "cache s2 (fs_key ?p) = Some e"
      using create_missing_last_entry [OF cm ne] unfolding lm by blast
    have keep: "fs s3 ?p = fs s2 ?p \<and> cache s3 (fs_key ?p) = cache s2 (fs_key ?p)"
    proof (cases "w_parent_path ?w \<notin> set missing \<and> w_type ?w = FILE_TYPE")
      case c: True
      then obtain e0 where u: "update_entry (w_parent_path ?w) (w_content_types ?w) s2 = Inr (e0, s3)"
        using par by auto
      have "w_parent_path ?w \<noteq> ?p" using c True by auto
      with u show ?thesis by (rule update_entry_other)
    next
      case False
      then show ?thesis using par by auto
    qed
    have "entry_path e = ?p" using e(3) by (simp add: entry_of_def)
    then show ?thesis using n e keep by simp
  next
    case False
    then obtain e where e: "update_entry ?p (w_content_types ?w) s3 = Inr (e, s')" "n = Entry e"
      using fin wp by auto
    have c: "cache s' (fs_key ?p) = Some e" using update_entry_cached [OF e(1)] by simp
    have names: "entry_path e = ?p" if h: "cache_names ?p s"
    proof -
      have "cache_names ?p s1" using gc h by (rule get_chain_names)
      with cm have n2: "cache_names ?p s2" by (rule create_missing_names)
      have "cache_names ?p s3"
      proof (cases "w_parent_path ?w \<notin> set missing \<and> w_type ?w = FILE_TYPE")
        case True
        then obtain e0 where "update_entry (w_parent_path ?w) (w_content_types ?w) s2 = Inr (e0, s3)"
          using par by auto
        then show ?thesis using n2 by (rule update_entry_names)
      next
        case False
        then show ?thesis using par n2 by auto
      qed
      with e(1) show ?thesis by (rule update_entry_path)
    qed
    have exact: "\<exists>r. fs s' ?p = Some r \<and> e = entry_of ?p r" if h: "cache_exact ?p s"
    proof -
      have "cache_exact ?p s1" using gc h by (rule get_chain_exact)
      with cm have n2: "cache_exact ?p s2" by (rule create_missing_exact)
      have "cache_exact ?p s3"
      proof (cases "w_parent_path ?w \<notin> set missing \<and> w_type ?w = FILE_TYPE")
        case True
        then obtain e0 where "update_entry (w_parent_path ?w) (w_content_types ?w) s2 = Inr (e0, s3)"
          using par by auto
        then show ?thesis using n2 by (rule update_entry_exact)
      next
        case False
        then show ?thesis using par n2 by auto
      qed
      with e(1) show ?thesis by (rule update_entry_exact_self)
    qed
    show ?thesis using e(2) c names exact by blast
  qed
qed

text \<open>
  The three cases on \<^verbatim>\<open>a/b\<close>: from the empty state the whole chain is missing and is
  created; after that write the chain is in the cache; with the cache emptied the
  chain is found in the store. In the last two cases nothing is left to create.
\<close>

lemma second_write_missing:
  "fst (snd (get_chain (FSWriter dir_ab_data) after_first_write)) = []
   \<and> fst (snd (get_chain (FSWriter dir_ab_data) (after_first_write\<lparr>cache := Map.empty\<rparr>))) = []
   \<and> fst (snd (get_chain (FSWriter dir_ab_data) empty_state)) = [[], ''a'', ''a/b'']"
  by code_simp

lemma after_first_write_names: "cache_names (data_path dir_ab_data) after_first_write"
  by code_simp

lemma empty_state_names: "cache_names q empty_state \<and> cache_exact q empty_state"
  by (simp add: cache_names_def cache_exact_def empty_state_def)

lemma dir_ab_normal:
  "data_path dir_ab_data \<in> set (ancestors_of (data_path dir_ab_data))
   \<and> data_type dir_ab_data \<noteq> FILE_TYPE"
  by code_simp

lemma dir_ab_states_exact:
  "cache_exact (data_path dir_ab_data) after_first_write
   \<and> cache_exact (data_path dir_ab_data) (after_first_write\<lparr>cache := Map.empty\<rparr>)
   \<and> cache_names (data_path dir_ab_data) (after_first_write\<lparr>cache := Map.empty\<rparr>)"
  by code_simp

lemma file_af_normal:
  "data_type file_af_data = FILE_TYPE
   \<and> data_path file_af_data \<in> set (ancestors_of (data_path file_af_data))
   \<and> dirname (data_path file_af_data) \<in> set (ancestors_of (data_path file_af_data))"
  by code_simp

theorem write_returns_target_witness:
  "data_path dir_ab_data \<in> set (ancestors_of (data_path dir_ab_data))
   \<and> cache_names (data_path dir_ab_data) empty_state
   \<and> cache_exact (data_path dir_ab_data) empty_state
   \<and> (\<exists>e s' r. write_fs 1 (FSWriter dir_ab_data) empty_state = Inr (Entry e, s')
          \<and> cache s' (fs_key (data_path dir_ab_data)) = Some e
          \<and> entry_path e = data_path dir_ab_data
          \<and> fs s' (data_path dir_ab_data) = Some r \<and> e = entry_of (data_path dir_ab_data) r)
   \<and> cache_names (data_path dir_ab_data) after_first_write
   \<and> cache_exact (data_path dir_ab_data) after_first_write
   \<and> (\<exists>e s' r. write_fs 1 (FSWriter dir_ab_data) after_first_write = Inr (Entry e, s')
          \<and> cache s' (fs_key (data_path dir_ab_data)) = Some e
          \<and> entry_path e = data_path dir_ab_data
          \<and> fs s' (data_path dir_ab_data) = Some r \<and> e = entry_of (data_path dir_ab_data) r)
   \<and> cache_names (data_path dir_ab_data) (after_first_write\<lparr>cache := Map.empty\<rparr>)
   \<and> cache_exact (data_path dir_ab_data) (after_first_write\<lparr>cache := Map.empty\<rparr>)
   \<and> (\<exists>e s' r. write_fs 1 (FSWriter dir_ab_data) (after_first_write\<lparr>cache := Map.empty\<rparr>)
            = Inr (Entry e, s')
          \<and> cache s' (fs_key (data_path dir_ab_data)) = Some e
          \<and> entry_path e = data_path dir_ab_data
          \<and> fs s' (data_path dir_ab_data) = Some r \<and> e = entry_of (data_path dir_ab_data) r)
   \<and> data_type file_af_data = FILE_TYPE
   \<and> data_path file_af_data \<in> set (ancestors_of (data_path file_af_data))
   \<and> dirname (data_path file_af_data) \<in> set (ancestors_of (data_path file_af_data))
   \<and> (\<exists>n s'. write_fs 1 (FSWriter file_af_data) empty_state = Inr (n, s'))"
proof -
  let ?p = "data_path dir_ab_data"
  have norm: "?p \<in> set (ancestors_of ?p)" and ty: "data_type dir_ab_data \<noteq> FILE_TYPE"
    using dir_ab_normal by simp_all
  have gen: "\<exists>e s' r. write_fs 1 (FSWriter dir_ab_data) s = Inr (Entry e, s')
          \<and> cache s' (fs_key ?p) = Some e \<and> entry_path e = ?p
          \<and> fs s' ?p = Some r \<and> e = entry_of ?p r"
    if nm: "cache_names ?p s" and ex: "cache_exact ?p s" for s
  proof -
    note T = write_returns_target [of dir_ab_data 1 s]
    have pre: "?p \<in> set (ancestors_of ?p)
        \<and> (data_type dir_ab_data = FILE_TYPE \<longrightarrow> dirname ?p \<in> set (ancestors_of ?p))"
      using norm ty by simp
    from T have "?p \<in> set (ancestors_of ?p)
        \<and> (data_type dir_ab_data = FILE_TYPE \<longrightarrow> dirname ?p \<in> set (ancestors_of ?p))
      \<longrightarrow> (\<exists>n s'. write_fs 1 (FSWriter dir_ab_data) s = Inr (n, s'))"
      by (rule conjunct1)
    from this pre have "\<exists>n s'. write_fs 1 (FSWriter dir_ab_data) s = Inr (n, s')"
      by (rule mp)
    then obtain n s' where w: "write_fs 1 (FSWriter dir_ab_data) s = Inr (n, s')"
      by (elim exE)
    from T have "\<forall>n s'. write_fs 1 (FSWriter dir_ab_data) s = Inr (n, s') \<longrightarrow>
         (\<exists>e. n = Entry e \<and> cache s' (fs_key ?p) = Some e
            \<and> (cache_names ?p s \<longrightarrow> entry_path e = ?p)
            \<and> (cache_exact ?p s \<longrightarrow> (\<exists>r. fs s' ?p = Some r \<and> e = entry_of ?p r)))"
      by (rule conjunct2)
    with w have "\<exists>e. n = Entry e \<and> cache s' (fs_key ?p) = Some e
            \<and> (cache_names ?p s \<longrightarrow> entry_path e = ?p)
            \<and> (cache_exact ?p s \<longrightarrow> (\<exists>r. fs s' ?p = Some r \<and> e = entry_of ?p r))"
      by blast
    then obtain e where e: "n = Entry e" "cache s' (fs_key ?p) = Some e"
      "cache_names ?p s \<longrightarrow> entry_path e = ?p"
      "cache_exact ?p s \<longrightarrow> (\<exists>r. fs s' ?p = Some r \<and> e = entry_of ?p r)"
      by (elim exE conjE)
    from e(3) nm have pe: "entry_path e = ?p" by (rule mp)
    from e(4) ex have "\<exists>r. fs s' ?p = Some r \<and> e = entry_of ?p r" by (rule mp)
    then obtain r where r: "fs s' ?p = Some r" "e = entry_of ?p r" by (elim exE conjE)
    from w e(1) have "write_fs 1 (FSWriter dir_ab_data) s = Inr (Entry e, s')" by simp
    with e(2) pe r show ?thesis by (intro exI [of _ e] exI [of _ s'] exI [of _ r] conjI)
  qed
  have n1: "cache_names ?p empty_state" and x1: "cache_exact ?p empty_state"
    using empty_state_names by simp_all
  have n2: "cache_names ?p after_first_write" by (rule after_first_write_names)
  have x2: "cache_exact ?p after_first_write"
    and x3: "cache_exact ?p (after_first_write\<lparr>cache := Map.empty\<rparr>)"
    and n3: "cache_names ?p (after_first_write\<lparr>cache := Map.empty\<rparr>)"
    using dir_ab_states_exact by simp_all
  have f1: "data_type file_af_data = FILE_TYPE"
    and f2: "data_path file_af_data \<in> set (ancestors_of (data_path file_af_data))"
    and f3: "dirname (data_path file_af_data) \<in> set (ancestors_of (data_path file_af_data))"
    using file_af_normal by simp_all
  have f4: "\<exists>n s'. write_fs 1 (FSWriter file_af_data) empty_state = Inr (n, s')"
    using write_returns_target [of file_af_data 1 empty_state] f2 f3 by blast
  from norm n1 x1 gen [OF n1 x1] n2 x2 gen [OF n2 x2] n3 x3 gen [OF n3 x3] f1 f2 f3 f4
  show ?thesis by (intro conjI)
qed

text \<open>
  A target that is not in normal form is not in its own chain, so it is never among the
  missing paths: the chain of \<^verbatim>\<open>a/b/\<close> is created up to \<^verbatim>\<open>a/b\<close>, and \<^verbatim>\<open>_update\<close> then
  fetches \<^verbatim>\<open>a/b/\<close>, which has no row, and raises instead of returning a record.
\<close>

theorem write_trailing_slash_fails:
  "isl (write_fs 1 (FSWriter dir_ab_slash_data) empty_state)
   \<and> projl (write_fs 1 (FSWriter dir_ab_slash_data) empty_state) = TypeError
   \<and> data_path dir_ab_slash_data \<notin> set (ancestors_of (data_path dir_ab_slash_data))"
  by code_simp

text \<open>
  Both conditions on the cache hold in the empty state and are kept by \<^verbatim>\<open>write()\<close>. The
  first one is kept by \<^verbatim>\<open>remove()\<close> too, which does not touch the cache.
\<close>

lemma write_fs_names:
  assumes "write_fs dct w s = Inr (n, s')" "cache_names q s"
  shows "cache_names q s'"
proof -
  from assms(1) obtain found missing s1 last1 s2 s3 where
    gc: "get_chain w s = (found, missing, s1)" and
    cm: "create_missing dct w missing (if found \<noteq> [] then Entry (last found) else DEFAULT_ROOT) s1
       = Inr (last1, s2)" and
    par: "if w_parent_path w \<notin> set missing \<and> w_type w = FILE_TYPE
     then \<exists>e. update_entry (w_parent_path w) (w_content_types w) s2 = Inr (e, s3)
     else s3 = s2" and
    fin: "if w_path w \<notin> set missing
     then \<exists>e. update_entry (w_path w) (w_content_types w) s3 = Inr (e, s') \<and> n = Entry e
     else n = last1 \<and> s' = s3"
    by (rule write_fs_cases)
  have "cache_names q s1" using gc assms(2) by (rule get_chain_names)
  with cm have n2: "cache_names q s2" by (rule create_missing_names)
  have n3: "cache_names q s3"
  proof (cases "w_parent_path w \<notin> set missing \<and> w_type w = FILE_TYPE")
    case True
    then obtain e0 where "update_entry (w_parent_path w) (w_content_types w) s2 = Inr (e0, s3)"
      using par by auto
    then show ?thesis using n2 by (rule update_entry_names)
  next
    case False
    then show ?thesis using par n2 by auto
  qed
  show ?thesis
  proof (cases "w_path w \<notin> set missing")
    case True
    then obtain e where "update_entry (w_path w) (w_content_types w) s3 = Inr (e, s')"
      using fin by auto
    then show ?thesis using n3 by (rule update_entry_names)
  next
    case False
    then show ?thesis using fin n3 by auto
  qed
qed

lemma write_fs_exact:
  assumes "write_fs dct w s = Inr (n, s')" "cache_exact q s"
  shows "cache_exact q s'"
proof -
  from assms(1) obtain found missing s1 last1 s2 s3 where
    gc: "get_chain w s = (found, missing, s1)" and
    cm: "create_missing dct w missing (if found \<noteq> [] then Entry (last found) else DEFAULT_ROOT) s1
       = Inr (last1, s2)" and
    par: "if w_parent_path w \<notin> set missing \<and> w_type w = FILE_TYPE
     then \<exists>e. update_entry (w_parent_path w) (w_content_types w) s2 = Inr (e, s3)
     else s3 = s2" and
    fin: "if w_path w \<notin> set missing
     then \<exists>e. update_entry (w_path w) (w_content_types w) s3 = Inr (e, s') \<and> n = Entry e
     else n = last1 \<and> s' = s3"
    by (rule write_fs_cases)
  have "cache_exact q s1" using gc assms(2) by (rule get_chain_exact)
  with cm have n2: "cache_exact q s2" by (rule create_missing_exact)
  have n3: "cache_exact q s3"
  proof (cases "w_parent_path w \<notin> set missing \<and> w_type w = FILE_TYPE")
    case True
    then obtain e0 where "update_entry (w_parent_path w) (w_content_types w) s2 = Inr (e0, s3)"
      using par by auto
    then show ?thesis using n2 by (rule update_entry_exact)
  next
    case False
    then show ?thesis using par n2 by auto
  qed
  show ?thesis
  proof (cases "w_path w \<notin> set missing")
    case True
    then obtain e where "update_entry (w_path w) (w_content_types w) s3 = Inr (e, s')"
      using fin by auto
    then show ?thesis using n3 by (rule update_entry_exact)
  next
    case False
    then show ?thesis using fin n3 by auto
  qed
qed

lemma remove_paths_cache: "cache (remove_paths ps s) = cache s"
proof -
  have "cache (foldl (\<lambda>s1 batch. remove_batch batch s1) s bs) = cache s" for bs
    by (induction bs arbitrary: s) (simp_all add: remove_batch_def)
  then show ?thesis by (simp add: remove_paths_def)
qed

lemma remove_paths_names: "cache_names q s \<Longrightarrow> cache_names q (remove_paths ps s)"
  by (simp add: cache_names_def remove_paths_cache)

section \<open>The node materializer: the bits of the parent directory\<close>

lemma covers_trans: "(r::int) AND e = e \<Longrightarrow> e AND b = b \<Longrightarrow> r AND b = b"
  by (metis and.assoc)

lemma or_keeps: "(r::int) AND b = b \<Longrightarrow> (r OR c) AND b = b"
  by (metis bit.conj_disj_distrib2 or.commute or.left_idem and.commute bit.disj_conj_distrib
        and.idem or_covers)

lemma has_bits_cong: "fs s' q = fs s q \<Longrightarrow> has_bits q b s' = has_bits q b s"
  by (simp add: has_bits_def)

lemma cache_covered_cong:
  "cache s' (fs_key q) = cache s (fs_key q) \<Longrightarrow> fs s' q = fs s q
     \<Longrightarrow> cache_covered q s' = cache_covered q s"
  by (simp add: cache_covered_def has_bits_def split: option.splits)

lemma cache_fold_inv:
  assumes "case c (fs_key q) of None \<Rightarrow> True | Some e \<Rightarrow> Q e"
    and "\<forall>e \<in> set es. entry_path e = q \<longrightarrow> Q e"
  shows "case foldl (\<lambda>c e. c(fs_key (entry_path e) \<mapsto> e)) c es (fs_key q) of
           None \<Rightarrow> True | Some e \<Rightarrow> Q e"
  using assms
proof (induction es arbitrary: c)
  case Nil
  then show ?case by simp
next
  case (Cons e0 es)
  have "case (c(fs_key (entry_path e0) \<mapsto> e0)) (fs_key q) of None \<Rightarrow> True | Some e \<Rightarrow> Q e"
    using Cons.prems by (cases "entry_path e0 = q") simp_all
  moreover have "\<forall>e \<in> set es. entry_path e = q \<longrightarrow> Q e"
    using Cons.prems(2) by simp
  ultimately have "case foldl (\<lambda>c e. c(fs_key (entry_path e) \<mapsto> e))
                 (c(fs_key (entry_path e0) \<mapsto> e0)) es (fs_key q) of
          None \<Rightarrow> True | Some e \<Rightarrow> Q e"
    by (rule Cons.IH)
  then show ?case by (simp only: foldl.simps)
qed

lemma get_chain_covered:
  assumes "get_chain w s = (found, missing, s1)" "cache_covered q s"
  shows "cache_covered q s1"
proof -
  obtain es where es: "\<forall>e \<in> set es. \<exists>r. fs s (entry_path e) = Some r \<and> e = entry_of (entry_path e) r"
    "cache s1 = foldl (\<lambda>c e. c(fs_key (entry_path e) \<mapsto> e)) (cache s) es"
    using get_chain_cache [OF assms(1)] by blast
  have fs1: "fs s1 = fs s" using assms(1) by (rule get_chain_facts(1))
  have "\<forall>e \<in> set es. entry_path e = q \<longrightarrow> has_bits q (entry_content_types e) s"
  proof (intro ballI impI)
    fix e assume "e \<in> set es" "entry_path e = q"
    then obtain r where "fs s q = Some r" "e = entry_of q r" using es(1) by blast
    then show "has_bits q (entry_content_types e) s"
      by (simp add: has_bits_def entry_of_def)
  qed
  with assms(2) have "case foldl (\<lambda>c e. c(fs_key (entry_path e) \<mapsto> e)) (cache s) es (fs_key q) of
           None \<Rightarrow> True | Some e \<Rightarrow> has_bits q (entry_content_types e) s"
    unfolding cache_covered_def by (rule cache_fold_inv)
  moreover have "has_bits q b s1 = has_bits q b s" for b
    by (rule has_bits_cong) (simp add: fs1)
  ultimately show ?thesis
    by (simp add: cache_covered_def es(2) split: option.splits)
qed

lemma create_covered:
  assumes "create p pid ty cts s = Inr (e, s')" "cache_covered q s"
  shows "cache_covered q s'"
proof -
  obtain r where r: "fs s' = (fs s)(p \<mapsto> r)" "e = entry_of p r"
    "cache s' = (cache s)(fs_key p \<mapsto> e)"
    using create_effect [OF assms(1)] by blast
  show ?thesis
  proof (cases "q = p")
    case True
    then show ?thesis by (simp add: cache_covered_def has_bits_def r entry_of_def)
  next
    case False
    then have "cache_covered q s' = cache_covered q s"
      by (intro cache_covered_cong) (simp_all add: r)
    then show ?thesis using assms(2) by simp
  qed
qed

lemma create_missing_covered:
  "create_missing dct w ms n s = Inr (n', s') \<Longrightarrow> cache_covered q s \<Longrightarrow> cache_covered q s'"
proof (induction ms arbitrary: n s)
  case Nil
  then show ?case by simp
next
  case (Cons m ms)
  from Cons.prems(1) obtain e s1 where
    c: "create m (node_id n) (w_type w)
          (if m = w_path w \<or> (m = w_parent_path w \<and> w_type w = FILE_TYPE)
           then dct OR w_content_types w else dct) s = Inr (e, s1)"
    and rest: "create_missing dct w ms (Entry e) s1 = Inr (n', s')"
    by (auto simp: Let_def split: sum.splits)
  have "cache_covered q s1" using c Cons.prems(2) by (rule create_covered)
  with rest show ?case by (rule Cons.IH)
qed

lemma create_missing_parent_bits:
  assumes "w_type w = FILE_TYPE"
  shows "create_missing dct w ms n s = Inr (n', s') \<Longrightarrow>
     w_parent_path w \<in> set ms \<or> has_bits (w_parent_path w) (w_content_types w) s \<Longrightarrow>
     has_bits (w_parent_path w) (w_content_types w) s'"
proof (induction ms arbitrary: n s)
  case Nil
  then show ?case by simp
next
  case (Cons m ms)
  let ?cts = "if m = w_path w \<or> (m = w_parent_path w \<and> w_type w = FILE_TYPE)
           then dct OR w_content_types w else dct"
  from Cons.prems(1) obtain e s1 where
    c: "create m (node_id n) (w_type w) ?cts s = Inr (e, s1)"
    and rest: "create_missing dct w ms (Entry e) s1 = Inr (n', s')"
    by (auto simp: Let_def split: sum.splits)
  obtain r where r: "fs s1 = (fs s)(m \<mapsto> r)" "row_content_types r = ?cts"
    using create_effect [OF c] by blast
  have "w_parent_path w \<in> set ms \<or> has_bits (w_parent_path w) (w_content_types w) s1"
  proof (cases "m = w_parent_path w")
    case True
    then have "row_content_types r = dct OR w_content_types w" using r(2) assms by simp
    then have "has_bits (w_parent_path w) (w_content_types w) s1"
      using True r(1) by (simp add: has_bits_def or_covers)
    then show ?thesis by simp
  next
    case False
    then show ?thesis using Cons.prems(2) r(1) by (auto simp: has_bits_def)
  qed
  with rest show ?case by (rule Cons.IH)
qed

lemma update_entry_has_bits:
  assumes "update_entry p c s = Inr (e, s')" "cache_covered p s"
  shows "has_bits p c s'"
proof (cases "cache s (fs_key p)")
  case None
  then show ?thesis
    using assms(1)
    by (cases "fs s p")
       (auto simp: update_entry_def db_update_def fetch_def Let_def has_bits_def or_covers)
next
  case (Some e0)
  then obtain r where r: "fs s p = Some r"
    "row_content_types r AND entry_content_types e0 = entry_content_types e0"
    using assms(2) by (auto simp: cache_covered_def has_bits_def split: option.splits)
  show ?thesis
  proof (cases "entry_content_types e0 AND c = c")
    case True
    then have "s' = s" using assms(1) Some by (simp add: update_entry_def)
    moreover have "row_content_types r AND c = c" using r(2) True by (rule covers_trans)
    ultimately show ?thesis using r(1) by (simp add: has_bits_def)
  next
    case False
    then have "fs s' = (fs s)(p \<mapsto> r\<lparr>row_content_types := row_content_types r OR c\<rparr>)"
      using assms(1) Some r(1) by (auto simp: update_entry_def db_update_def Let_def)
    then show ?thesis by (simp add: has_bits_def or_covers)
  qed
qed

lemma update_entry_keeps_bits:
  assumes "update_entry p c s = Inr (e, s')" "has_bits q b s"
  shows "has_bits q b s'"
proof -
  consider "fs s' = fs s"
    | r where "fs s p = Some r" "fs s' = (fs s)(p \<mapsto> r\<lparr>row_content_types := row_content_types r OR c\<rparr>)"
    using update_entry_fs [OF assms(1)] by blast
  then show ?thesis
  proof cases
    case 1
    then show ?thesis using assms(2) by (simp add: has_bits_def)
  next
    case 2
    then show ?thesis
      using assms(2) by (cases "q = p") (simp_all add: has_bits_def or_keeps)
  qed
qed

text \<open>
  Let the target be a file with bits \<open>B\<close>, and let the cached entry of its parent path,
  if there is one, claim no bit that the parent's row in the store lacks. Then, after a
  \<^verbatim>\<open>write()\<close> that returns, the parent path has a row in the store and the content types
  of that row contain \<open>B\<close>, whether the row was there before or was created by this
  write.
\<close>

lemma write_parent_superset:
  assumes "data_type data = FILE_TYPE"
    and "cache_covered (dirname (data_path data)) s"
    and "write_fs dct (FSWriter data) s = Inr (n, s')"
  shows "\<exists>r. fs s' (dirname (data_path data)) = Some r
           \<and> row_content_types r AND data_content_types data = data_content_types data"
proof -
  let ?w = "FSWriter data"
  let ?par = "dirname (data_path data)"
  let ?b = "data_content_types data"
  have w: "w_path ?w = data_path data" "w_parent_path ?w = ?par" "w_type ?w = FILE_TYPE"
    "w_content_types ?w = ?b"
    using assms(1) by (simp_all add: FSWriter_def)
  from assms(3) obtain found missing s1 last1 s2 s3 where
    gc: "get_chain ?w s = (found, missing, s1)" and
    cm: "create_missing dct ?w missing (if found \<noteq> [] then Entry (last found) else DEFAULT_ROOT) s1
       = Inr (last1, s2)" and
    par: "if w_parent_path ?w \<notin> set missing \<and> w_type ?w = FILE_TYPE
     then \<exists>e. update_entry (w_parent_path ?w) (w_content_types ?w) s2 = Inr (e, s3)
     else s3 = s2" and
    fin: "if w_path ?w \<notin> set missing
     then \<exists>e. update_entry (w_path ?w) (w_content_types ?w) s3 = Inr (e, s') \<and> n = Entry e
     else n = last1 \<and> s' = s3"
    by (rule write_fs_cases)
  have b3: "has_bits ?par ?b s3"
  proof (cases "?par \<in> set missing")
    case True
    then have "w_parent_path ?w \<in> set missing
        \<or> has_bits (w_parent_path ?w) (w_content_types ?w) s1"
      using w by simp
    with w(3) cm have "has_bits (w_parent_path ?w) (w_content_types ?w) s2"
      by (rule create_missing_parent_bits)
    then show ?thesis using par True w by simp
  next
    case False
    then obtain e where u: "update_entry ?par ?b s2 = Inr (e, s3)"
      using par w by auto
    have "cache_covered ?par s1" using gc assms(2) by (rule get_chain_covered)
    with cm have "cache_covered ?par s2" by (rule create_missing_covered)
    with u show ?thesis by (rule update_entry_has_bits)
  qed
  have "has_bits ?par ?b s'"
  proof (cases "w_path ?w \<notin> set missing")
    case True
    then obtain e where "update_entry (w_path ?w) (w_content_types ?w) s3 = Inr (e, s')"
      using fin by auto
    then show ?thesis using b3 by (rule update_entry_keeps_bits)
  next
    case False
    then show ?thesis using fin b3 by simp
  qed
  then show ?thesis by (auto simp: has_bits_def split: option.splits)
qed

lemma file_af_write_returns:
  "\<not> isl (write_fs 1 (FSWriter file_af_data) empty_state)
   \<and> \<not> isl (write_fs 1 (FSWriter file_af_data) dir_a_state)"
  by code_simp

lemma file_af_parent: "dirname (data_path file_af_data) = ''a''"
  by code_simp

lemma write_parent_superset_example:
  "data_type file_af_data = FILE_TYPE
   \<and> cache_covered (dirname (data_path file_af_data)) empty_state
   \<and> fs empty_state ''a'' = None
   \<and> (\<exists>n s' r. write_fs 1 (FSWriter file_af_data) empty_state = Inr (n, s')
         \<and> fs s' ''a'' = Some r \<and> row_content_types r AND 2 = 2)
   \<and> cache_covered (dirname (data_path file_af_data)) dir_a_state
   \<and> map_option row_content_types (fs dir_a_state ''a'') = Some 1
   \<and> (\<exists>n s' r. write_fs 1 (FSWriter file_af_data) dir_a_state = Inr (n, s')
         \<and> fs s' ''a'' = Some r \<and> row_content_types r AND 2 = 2)"
proof -
  have t: "data_type file_af_data = FILE_TYPE" and b: "data_content_types file_af_data = 2"
    by (simp_all add: file_af_data_def)
  have c1: "cache_covered (dirname (data_path file_af_data)) empty_state"
    by (simp add: cache_covered_def empty_state_def)
  have c2: "cache_covered (dirname (data_path file_af_data)) dir_a_state"
    by (simp add: cache_covered_def dir_a_state_def empty_state_def)
  have e1: "fs empty_state ''a'' = None" by (simp add: empty_state_def)
  have e2: "map_option row_content_types (fs dir_a_state ''a'') = Some 1"
    by (simp add: dir_a_state_def empty_state_def)
  obtain n1 t1 where w1: "write_fs 1 (FSWriter file_af_data) empty_state = Inr (n1, t1)"
    using file_af_write_returns
    by (cases "write_fs 1 (FSWriter file_af_data) empty_state") auto
  obtain n2 t2 where w2: "write_fs 1 (FSWriter file_af_data) dir_a_state = Inr (n2, t2)"
    using file_af_write_returns
    by (cases "write_fs 1 (FSWriter file_af_data) dir_a_state") auto
  have r1: "\<exists>r. fs t1 ''a'' = Some r \<and> row_content_types r AND 2 = 2"
    using write_parent_superset [OF t c1 w1] by (simp add: file_af_parent b)
  have r2: "\<exists>r. fs t2 ''a'' = Some r \<and> row_content_types r AND 2 = 2"
    using write_parent_superset [OF t c2 w2] by (simp add: file_af_parent b)
  show ?thesis
    using t c1 c2 e1 e2 w1 w2 r1 r2 by blast
qed

text \<open>
  C4. After saving a file with bits \<open>B\<close> the stored content types of its parent
  directory are to contain \<open>B\<close>. The code breaks this in a state it reaches itself:
  after saving the file \<^verbatim>\<open>a/f.txt\<close> and removing \<^verbatim>\<open>a\<close>, which leaves the cache as it was,
  saving the file again finds the parent in the cache with the bits already set, skips
  the update and returns, and the store holds no row for the parent at all.
\<close>

theorem write_after_remove_parent_missing:
  "data_type file_af_data = FILE_TYPE
   \<and> \<not> isl (write_fs 1 (FSWriter file_af_data) empty_state)
   \<and> \<not> isl (write_fs 1 (FSWriter file_af_data) stale_file_state)
   \<and> dirname (data_path file_af_data) = ''a''
   \<and> fs (snd (projr (write_fs 1 (FSWriter file_af_data) stale_file_state))) ''a'' = None"
  by code_simp

section \<open>The node materializer: the worked example\<close>

lemma c_txt_ancestors: "ancestors_of ''/a/b/c.txt'' = [''/'', ''/a'', ''/a/b'', ''/a/b/c.txt'']"
  by code_simp

lemma c_txt_parent: "dirname ''/a/b/c.txt'' = ''/a/b''"
  by code_simp

lemma c_txt_write:
  "\<exists>n s'. write_fs g (FSWriter (c_txt_data t)) empty_state = Inr (n, s')
     \<and> dom (fs s') = {''/a/b/c.txt'', ''/a/b'', ''/a'', ''/''}
     \<and> map_option row_content_types (fs s' ''/a/b'') = Some (g OR t)
     \<and> map_option row_content_types (fs s' ''/a'') = Some g"
  by (simp add: write_fs_def get_chain_def FSWriter_def c_txt_data_def empty_state_def
        c_txt_ancestors c_txt_parent select_in_def create_def db_replace_def fetch_def
        entry_of_def fs_key_def Let_def)

text \<open>
  C3. Saving \<^verbatim>\<open>/a/b/c.txt\<close> as a file with the bits \<open>t\<close> on an empty store and an empty
  cache, with \<open>g\<close> the bitmask of the generic content type, returns and leaves exactly
  four rows, whose paths are \<^verbatim>\<open>/\<close>, \<^verbatim>\<open>/a\<close>, \<^verbatim>\<open>/a/b\<close> and \<^verbatim>\<open>/a/b/c.txt\<close>: the root row has
  the path \<^verbatim>\<open>/\<close>. The content types of \<^verbatim>\<open>/a/b\<close> are \<open>g OR t\<close>, which contain the bits of
  the file and the generic bits; the content types of \<^verbatim>\<open>/a\<close> are \<open>g\<close>, which do not
  contain the bits of the file unless the generic bitmask does.
\<close>

theorem save_c_txt_rows:
  "\<exists>n s'. write_fs g (FSWriter (c_txt_data t)) empty_state = Inr (n, s')
     \<and> dom (fs s') = {''/'', ''/a'', ''/a/b'', ''/a/b/c.txt''}
     \<and> (\<exists>r. fs s' ''/a/b'' = Some r \<and> row_content_types r = g OR t
            \<and> row_content_types r AND t = t \<and> row_content_types r AND g = g)
     \<and> (\<exists>r. fs s' ''/a'' = Some r \<and> row_content_types r = g
            \<and> (g AND t \<noteq> t \<longrightarrow> row_content_types r AND t \<noteq> t))"
proof -
  from c_txt_write [of g t] obtain n s' where
    w1: "write_fs g (FSWriter (c_txt_data t)) empty_state = Inr (n, s')"
    and w2: "dom (fs s') = {''/a/b/c.txt'', ''/a/b'', ''/a'', ''/''}"
    and w3: "map_option row_content_types (fs s' ''/a/b'') = Some (g OR t)"
    and w4: "map_option row_content_types (fs s' ''/a'') = Some g"
    by (elim exE conjE)
  from w3 obtain r1 where r1: "fs s' ''/a/b'' = Some r1" "row_content_types r1 = g OR t"
    by (cases "fs s' ''/a/b''") simp_all
  from w4 obtain r2 where r2: "fs s' ''/a'' = Some r2" "row_content_types r2 = g"
    by (cases "fs s' ''/a''") simp_all
  have a: "(g OR t) AND t = t" by (rule or_covers)
  have b: "(g OR t) AND g = g" using or_covers [of t g] by (simp only: or.commute)
  have d: "dom (fs s') = {''/'', ''/a'', ''/a/b'', ''/a/b/c.txt''}"
    unfolding w2 by (simp only: insert_commute)
  have p1: "\<exists>r. fs s' ''/a/b'' = Some r \<and> row_content_types r = g OR t
            \<and> row_content_types r AND t = t \<and> row_content_types r AND g = g"
    using r1 a b by (intro exI [of _ r1]) (simp only: simp_thms)
  have p2: "\<exists>r. fs s' ''/a'' = Some r \<and> row_content_types r = g
            \<and> (g AND t \<noteq> t \<longrightarrow> row_content_types r AND t \<noteq> t)"
    using r2 by (intro exI [of _ r2]) (simp only: simp_thms)
  from w1 d p1 p2 show ?thesis
    by (intro exI [of _ n] exI [of _ s'] conjI)
qed

theorem save_c_txt_rows_witness:
  "(1::int) AND 2 \<noteq> 2
   \<and> (\<exists>n s'. write_fs 1 (FSWriter (c_txt_data 2)) empty_state = Inr (n, s')
         \<and> dom (fs s') = {''/'', ''/a'', ''/a/b'', ''/a/b/c.txt''}
         \<and> (\<exists>r. fs s' ''/a/b'' = Some r \<and> row_content_types r AND 2 = 2
                \<and> row_content_types r AND 1 = 1)
         \<and> (\<exists>r. fs s' ''/a'' = Some r \<and> row_content_types r AND 2 \<noteq> 2))"
proof -
  have h: "(1::int) AND 2 \<noteq> 2" by simp
  from save_c_txt_rows [of 1 2] obtain n s' r1 r2 where
    w: "write_fs 1 (FSWriter (c_txt_data 2)) empty_state = Inr (n, s')"
    and d: "dom (fs s') = {''/'', ''/a'', ''/a/b'', ''/a/b/c.txt''}"
    and r1: "fs s' ''/a/b'' = Some r1" "row_content_types r1 AND 2 = 2"
      "row_content_types r1 AND 1 = 1"
    and r2: "fs s' ''/a'' = Some r2" "row_content_types r2 = 1"
    by (elim exE conjE)
  have p1: "\<exists>r. fs s' ''/a/b'' = Some r \<and> row_content_types r AND 2 = 2
                \<and> row_content_types r AND 1 = 1"
    using r1 by (intro exI [of _ r1] conjI)
  have "row_content_types r2 AND 2 \<noteq> 2" unfolding r2(2) by (rule h)
  with r2(1) have p2: "\<exists>r. fs s' ''/a'' = Some r \<and> row_content_types r AND 2 \<noteq> 2"
    by (intro exI [of _ r2] conjI)
  from h w d p1 p2 show ?thesis
    by (intro conjI exI [of _ n] exI [of _ s'])
qed

text \<open>
  The root row of an absolute path has the path \<^verbatim>\<open>/\<close>; no row has the empty path, which
  is the root marker of relative paths only.
\<close>

theorem save_c_txt_root_path:
  "\<not> isl (write_fs 1 (FSWriter (c_txt_data 2)) empty_state)
   \<and> fs (snd (projr (write_fs 1 (FSWriter (c_txt_data 2)) empty_state))) [] = None
   \<and> fs (snd (projr (write_fs 1 (FSWriter (c_txt_data 2)) empty_state))) ''/'' \<noteq> None"
  by code_simp

section \<open>The node materializer: the type of the entries it creates\<close>

text \<open>Every entry the loop of \<^verbatim>\<open>write\<close> creates has the type of the target.\<close>

lemma create_missing_type:
  "create_missing dct w ms n s = Inr (n', s') \<Longrightarrow>
     m \<in> set ms \<or> map_option row_type (fs s m) = Some (w_type w) \<Longrightarrow>
     map_option row_type (fs s' m) = Some (w_type w)"
proof (induction ms arbitrary: n s)
  case Nil
  then show ?case by simp
next
  case (Cons m0 ms)
  let ?cts = "if m0 = w_path w \<or> (m0 = w_parent_path w \<and> w_type w = FILE_TYPE)
           then dct OR w_content_types w else dct"
  from Cons.prems(1) obtain e s1 where
    c: "create m0 (node_id n) (w_type w) ?cts s = Inr (e, s1)"
    and rest: "create_missing dct w ms (Entry e) s1 = Inr (n', s')"
    by (auto simp: Let_def split: sum.splits)
  obtain r where r: "fs s1 = (fs s)(m0 \<mapsto> r)" "row_type r = w_type w"
    using create_effect [OF c] by blast
  have "m \<in> set ms \<or> map_option row_type (fs s1 m) = Some (w_type w)"
    using Cons.prems(2) r by (cases "m = m0") auto
  with rest show ?case by (rule Cons.IH)
qed

text \<open>
  C2. The absent entries of the chain are to be created from the root down, each with
  the id of the previous one as its parent id, as directories, except the target, which
  takes its own type. The loop passes the type of the target to every \<^verbatim>\<open>_create\<close>: saving
  the file \<^verbatim>\<open>a/f.txt\<close> on an empty store creates the rows of the root, of \<^verbatim>\<open>a\<close> and of
  \<^verbatim>\<open>a/f.txt\<close> in this order, with the ids 1, 2, 3 and the parent ids 0, 1, 2, and all
  three, the two ancestors included, have the type of a file.
\<close>

theorem write_file_ancestor_types:
  "\<not> isl (write_fs 1 (FSWriter file_af_data) empty_state)
   \<and> ancestors_of (data_path file_af_data) = [[], ''a'', ''a/f.txt'']
   \<and> data_type file_af_data = FILE_TYPE
   \<and> fs (snd (projr (write_fs 1 (FSWriter file_af_data) empty_state))) []
       = Some \<lparr>row_id = 1, row_parent_id = 0, row_type = FILE_TYPE, row_content_types = 1\<rparr>
   \<and> fs (snd (projr (write_fs 1 (FSWriter file_af_data) empty_state))) ''a''
       = Some \<lparr>row_id = 2, row_parent_id = 1, row_type = FILE_TYPE, row_content_types = 3\<rparr>
   \<and> fs (snd (projr (write_fs 1 (FSWriter file_af_data) empty_state))) ''a/f.txt''
       = Some \<lparr>row_id = 3, row_parent_id = 2, row_type = FILE_TYPE, row_content_types = 3\<rparr>
   \<and> FILE_TYPE \<noteq> DIRECTORY_TYPE"
  by code_simp

end
